theory Spec2Isabelle
  imports Main "HOL-Library.Word"
begin

unbundle bit_operations_syntax

section \<open>Data model of the distributed queue (util/distq.h)\<close>

text \<open>
  Pointers to queue nodes: \<open>NNull\<close> is the C \<open>NULL\<close>, \<open>NTail\<close> is \<open>B1_TAIL\<close>
  (\<open>ERR_PTR(-1)\<close>, the non-null tail marker of the singly linked lists), and
  \<open>NPtr a\<close> is the node living at address \<open>a\<close>.
\<close>

datatype nptr = NNull | NTail | NPtr nat

type_synonym s64 = "64 word"

text \<open>
  The kernel's \<open>refcount_t\<close> (\<open>linux/refcount.h\<close>) wraps a 32-bit \<open>atomic_t\<close>;
  its value is read as a signed integer.
\<close>

type_synonym refcount_t = "32 word"

text \<open>
  \<open>struct b1_distq_node\<close>; \<open>rb_ready\<close> records whether the embedded tree node is
  linked (\<open>True\<close>) or cleared (\<open>RB_EMPTY_NODE\<close>).
\<close>

record b1_distq_node =
  node_n_refs :: refcount_t
  userdata :: "32 word"
  node_timestamp :: s64
  node_tx :: "nat option"
  next_queue :: nptr
  rb_ready :: bool

record b1_distq_tx =
  tx_n_refs :: refcount_t
  tx_timestamp :: s64

text \<open>
  \<open>struct b1_distq_peer\<close>. The red-black tree \<open>queue.ready\<close> of the kernel library is
  represented by the in-order sequence of the node addresses it holds; the wait queue
  carries no state of its own here.
\<close>

record b1_distq_peer =
  clock :: s64
  local :: s64
  n_committed :: "32 word"
  queue_incoming :: nptr
  queue_busy :: nptr
  queue_ready :: "nat list"
  queue_ready_first :: "nat option"
  queue_ready_last :: "nat option"

text \<open>
  The store: every node, transaction and peer lives at an address. \<open>warnings\<close> counts
  the \<open>B1_WARN_ON\<close> conditions that evaluated to true.
\<close>

record heap =
  nodes :: "nat \<Rightarrow> b1_distq_node"
  txs :: "nat \<Rightarrow> b1_distq_tx"
  peers :: "nat \<Rightarrow> b1_distq_peer"
  warnings :: nat

definition upd_node :: "nat \<Rightarrow> (b1_distq_node \<Rightarrow> b1_distq_node) \<Rightarrow> heap \<Rightarrow> heap" where
  "upd_node a f h = h\<lparr>nodes := (nodes h)(a := f (nodes h a))\<rparr>"

definition upd_tx :: "nat \<Rightarrow> (b1_distq_tx \<Rightarrow> b1_distq_tx) \<Rightarrow> heap \<Rightarrow> heap" where
  "upd_tx a f h = h\<lparr>txs := (txs h)(a := f (txs h a))\<rparr>"

definition upd_peer :: "nat \<Rightarrow> (b1_distq_peer \<Rightarrow> b1_distq_peer) \<Rightarrow> heap \<Rightarrow> heap" where
  "upd_peer a f h = h\<lparr>peers := (peers h)(a := f (peers h a))\<rparr>"

text \<open>\<open>B1_WARN_ON(c)\<close>: evaluates to \<open>c\<close> and records a warning when it is true.\<close>

definition warn_on :: "bool \<Rightarrow> heap \<Rightarrow> heap" where
  "warn_on c h = (if c then h\<lparr>warnings := Suc (warnings h)\<rparr> else h)"

section \<open>Timestamp algebra\<close>

definition b1_distq_ts_committed :: "s64 \<Rightarrow> bool" where
  "b1_distq_ts_committed ts = (ts AND 1 \<noteq> 0)"

text \<open>
  \<open>b1_distq_ts_force_sync\<close> on the value \<open>v\<close> held by the atomic: the new value, and
  the number of warnings raised. Without a concurrent writer the compare-and-exchange
  succeeds at once. Comparisons of \<open>s64\<close> are signed.
\<close>

definition b1_distq_ts_force_sync :: "s64 \<Rightarrow> s64 \<Rightarrow> s64 \<times> nat" where
  "b1_distq_ts_force_sync v to =
     (let w = (if b1_distq_ts_committed to then 1 else 0) in
      if sint v \<ge> sint to then (v, w)
      else if b1_distq_ts_committed v then (v, Suc w)
      else (to, w))"

text \<open>
  \<open>b1_distq_ts_try_sync\<close>: the new value of the atomic, the value returned, and the
  number of warnings raised.
\<close>

definition b1_distq_ts_try_sync :: "s64 \<Rightarrow> s64 \<Rightarrow> s64 \<times> s64 \<times> nat" where
  "b1_distq_ts_try_sync v to =
     (let w = (if b1_distq_ts_committed to then 1 else 0) in
      if sint v \<ge> sint to \<or> b1_distq_ts_committed v then (v, v, w)
      else (to, to, w))"


section \<open>Nodes and transactions\<close>

text \<open>
  The conversion \<open>(unsigned long)a->tx\<close> of a transaction pointer: \<open>NULL\<close> is 0 and
  distinct transactions have distinct non-zero values.
\<close>

definition ulong_of_tx :: "nat option \<Rightarrow> nat" where
  "ulong_of_tx t = (case t of None \<Rightarrow> 0 | Some a \<Rightarrow> Suc a)"

definition b1_distq_node_compare :: "heap \<Rightarrow> nat \<Rightarrow> nat \<Rightarrow> int" where
  "b1_distq_node_compare h a b =
     (if sint (node_timestamp (nodes h a)) < sint (node_timestamp (nodes h b)) then - 1
      else if sint (node_timestamp (nodes h a)) > sint (node_timestamp (nodes h b)) then 1
      else if ulong_of_tx (node_tx (nodes h a)) < ulong_of_tx (node_tx (nodes h b)) then - 1
      else if ulong_of_tx (node_tx (nodes h a)) > ulong_of_tx (node_tx (nodes h b)) then 1
      else if a < b then - 1
      else if a > b then 1
      else 0)"

definition b1_distq_node_init :: "nat \<Rightarrow> heap \<Rightarrow> heap" where
  "b1_distq_node_init node h =
     upd_node node (\<lambda>_. \<lparr>node_n_refs = 0, userdata = 0, node_timestamp = 0,
                          node_tx = None, next_queue = NNull, rb_ready = False\<rparr>) h"

definition b1_distq_node_claim :: "nat \<Rightarrow> heap \<Rightarrow> heap" where
  "b1_distq_node_claim node h =
     upd_node node (\<lambda>n. n\<lparr>node_n_refs := 1\<rparr>) (warn_on (node_n_refs (nodes h node) \<noteq> 0) h)"

definition b1_distq_node_finalize :: "nat \<Rightarrow> heap \<Rightarrow> nat option \<times> heap" where
  "b1_distq_node_finalize node h =
     (node_tx (nodes h node), upd_node node (\<lambda>n. n\<lparr>node_tx := None\<rparr>) h)"

text \<open>
  The primitives of \<open>linux/refcount.h\<close>, which the kernel provides (the
  implementation of Linux 5.5 and later). A counter that
  is incremented from zero, that is negative, or that would overflow is set to
  \<open>REFCOUNT_SATURATED\<close> (\<open>INT_MIN / 2\<close>) by \<open>refcount_warn_saturate\<close>, which also prints a
  kernel message; the message is no part of the store.

  \<open>refcount_inc\<close>: \<open>old = atomic_fetch_add(1, &r->refs)\<close>, saturating when \<open>old\<close> is
  zero, or \<open>old < 0 || old + 1 < 0\<close>.
\<close>

definition REFCOUNT_SATURATED :: refcount_t where
  "REFCOUNT_SATURATED = 0xC0000000"

definition refcount_inc :: "refcount_t \<Rightarrow> refcount_t" where
  "refcount_inc old =
     (if old = 0 then REFCOUNT_SATURATED
      else if sint old < 0 \<or> sint (old + 1) < 0 then REFCOUNT_SATURATED
      else old + 1)"

text \<open>
  \<open>refcount_dec_and_test\<close>: \<open>old = atomic_fetch_sub(1, &r->refs)\<close>; the result is true
  when \<open>old\<close> was 1, and the counter saturates when \<open>old < 0 || old - 1 < 0\<close>.
  The pair is the counter afterwards and the result.
\<close>

definition refcount_dec_and_test :: "refcount_t \<Rightarrow> refcount_t \<times> bool" where
  "refcount_dec_and_test old =
     (if old = 1 then (old - 1, True)
      else if sint old < 0 \<or> sint (old - 1) < 0 then (REFCOUNT_SATURATED, False)
      else (old - 1, False))"

text \<open>
  \<open>b1_distq_node_queue\<close>. Without a concurrent producer the compare-and-exchange on
  the head of the incoming list succeeds in the first round.
\<close>

definition b1_distq_node_queue :: "nat \<Rightarrow> nat \<Rightarrow> nat \<Rightarrow> heap \<Rightarrow> heap" where
  "b1_distq_node_queue node tx dest h =
     (if node_tx (nodes h node) \<noteq> None \<or> next_queue (nodes h node) \<noteq> NNull
      then warn_on True h
      else
        let h1 = upd_node node (\<lambda>n. n\<lparr>node_n_refs := refcount_inc (node_n_refs n)\<rparr>) h;
            h2 = upd_tx tx (\<lambda>t. t\<lparr>tx_n_refs := refcount_inc (tx_n_refs t)\<rparr>) h1;
            h3 = upd_node node (\<lambda>n. n\<lparr>node_tx := Some tx\<rparr>) h2;
            head = queue_incoming (peers h3 dest)
        in if head = NNull then
             let h4 = upd_node node (\<lambda>n. n\<lparr>next_queue := NNull\<rparr>) h3;
                 (r, z) = refcount_dec_and_test (node_n_refs (nodes h4 node))
             in warn_on z (upd_node node (\<lambda>n. n\<lparr>node_n_refs := r\<rparr>) h4)
           else
             let h4 = upd_node node (\<lambda>n. n\<lparr>next_queue := head\<rparr>) h3;
                 h5 = upd_peer dest (\<lambda>q. q\<lparr>queue_incoming := NPtr node\<rparr>) h4;
                 (v, w) = b1_distq_ts_force_sync (tx_timestamp (txs h5 tx)) (clock (peers h5 dest))
             in (upd_tx tx (\<lambda>t. t\<lparr>tx_timestamp := v\<rparr>) h5)\<lparr>warnings := warnings h5 + w\<rparr>)"

text \<open>\<open>b1_distq_node_commit\<close>; the wake-up of the waiter changes no state of the queue.\<close>

definition b1_distq_node_commit :: "nat \<Rightarrow> nat \<Rightarrow> heap \<Rightarrow> heap" where
  "b1_distq_node_commit node dest h =
     (case node_tx (nodes h node) of
        None \<Rightarrow> warn_on True h
      | Some tx \<Rightarrow>
          let h1 = upd_peer dest (\<lambda>q. q\<lparr>n_committed := n_committed q + 1\<rparr>) h;
              ts = tx_timestamp (txs h1 tx) + 1;
              (v, w) = b1_distq_ts_force_sync (clock (peers h1 dest)) ts
          in (upd_peer dest (\<lambda>q. q\<lparr>clock := v\<rparr>) h1)\<lparr>warnings := warnings h1 + w\<rparr>)"

definition b1_distq_tx_init :: "nat \<Rightarrow> heap \<Rightarrow> heap" where
  "b1_distq_tx_init tx h = upd_tx tx (\<lambda>_. \<lparr>tx_n_refs = 0, tx_timestamp = 0\<rparr>) h"

definition b1_distq_tx_claim :: "nat \<Rightarrow> heap \<Rightarrow> heap" where
  "b1_distq_tx_claim tx h =
     upd_tx tx (\<lambda>t. t\<lparr>tx_n_refs := 1\<rparr>) (warn_on (tx_n_refs (txs h tx) \<noteq> 0) h)"

definition b1_distq_tx_commit :: "nat \<Rightarrow> nat \<Rightarrow> heap \<Rightarrow> heap" where
  "b1_distq_tx_commit tx sender h =
     (let ts = clock (peers h sender);
          (v, w) = b1_distq_ts_force_sync (tx_timestamp (txs h tx)) ts
      in (upd_tx tx (\<lambda>t. t\<lparr>tx_timestamp := v + 1\<rparr>) h)\<lparr>warnings := warnings h + w\<rparr>)"

section \<open>Peers\<close>

definition b1_distq_peer_init :: "nat \<Rightarrow> heap \<Rightarrow> heap" where
  "b1_distq_peer_init peer h =
     upd_peer peer (\<lambda>_. \<lparr>clock = 0, local = 0, n_committed = 0,
                          queue_incoming = NTail, queue_busy = NTail, queue_ready = [],
                          queue_ready_first = None, queue_ready_last = None\<rparr>) h"

definition b1_distq_peer_poll :: "nat \<Rightarrow> heap \<Rightarrow> bool" where
  "b1_distq_peer_poll peer h = (sint (n_committed (peers h peer)) > 0)"

text \<open>
  A \<open>slot\<close> is the C variable \<open>struct b1_distq_node **slot\<close>: it points either at the
  \<open>queue.busy\<close> field of a peer or at the \<open>next_queue\<close> field of a node.
\<close>

datatype slot = SlotBusy nat | SlotNext nat

definition read_slot :: "heap \<Rightarrow> slot \<Rightarrow> nptr" where
  "read_slot h sl = (case sl of SlotBusy p \<Rightarrow> queue_busy (peers h p)
                              | SlotNext n \<Rightarrow> next_queue (nodes h n))"

definition write_slot :: "slot \<Rightarrow> nptr \<Rightarrow> heap \<Rightarrow> heap" where
  "write_slot sl v h = (case sl of SlotBusy p \<Rightarrow> upd_peer p (\<lambda>q. q\<lparr>queue_busy := v\<rparr>) h
                                 | SlotNext n \<Rightarrow> upd_node n (\<lambda>x. x\<lparr>next_queue := v\<rparr>) h)"

text \<open>
  The walk \<open>while (*slot != B1_TAIL) slot = &(*slot)->next_queue\<close> of
  \<open>b1_distq_peer_finalize\<close>. Reading through a \<open>NULL\<close> pointer is a failure (\<open>None\<close>),
  and so is a walk that never ends.
\<close>

partial_function (option) find_tail :: "slot \<Rightarrow> heap \<Rightarrow> slot option" where
  "find_tail sl h =
     (case read_slot h sl of
        NTail \<Rightarrow> Some sl
      | NNull \<Rightarrow> None
      | NPtr n \<Rightarrow> find_tail (SlotNext n) h)"

declare find_tail.simps [code]

text \<open>
  The body of the post-order walk over the ready tree in \<open>b1_distq_peer_finalize\<close>:
  the node is cleared and prepended to the list. The order of the walk depends on the
  shape of the tree; the model visits the entries in order.
\<close>

definition detach_ready :: "nat \<Rightarrow> heap \<times> nptr \<Rightarrow> heap \<times> nptr" where
  "detach_ready node hl =
     (upd_node node (\<lambda>x. x\<lparr>rb_ready := False, next_queue := snd hl\<rparr>) (fst hl), NPtr node)"

definition b1_distq_peer_finalize :: "nat \<Rightarrow> heap \<Rightarrow> (nptr \<times> heap) option" where
  "b1_distq_peer_finalize peer h =
     (let list = queue_incoming (peers h peer);
          h1 = upd_peer peer (\<lambda>q. q\<lparr>queue_incoming := NNull\<rparr>) h
      in if list = NNull then Some (NTail, h1)
         else
           case find_tail (SlotBusy peer) h1 of
             None \<Rightarrow> None
           | Some sl \<Rightarrow>
               let h2 = write_slot sl list h1;
                   list2 = queue_busy (peers h2 peer);
                   h3 = upd_peer peer (\<lambda>q. q\<lparr>queue_busy := NNull\<rparr>) h2;
                   (h4, list3) = fold detach_ready (queue_ready (peers h3 peer)) (h3, list2)
               in Some (list3, upd_peer peer (\<lambda>q. q\<lparr>queue_ready := [], queue_ready_first := None,
                                                    queue_ready_last := None\<rparr>) h4))"

text \<open>
  \<open>b1_distq_peer_push_ready\<close>. In a tree that is sorted by \<open>b1_distq_node_compare\<close>
  the descent ends behind the last entry that does not compare greater than the node;
  the descent never turned right iff no entry precedes the node, and never turned left
  iff none follows it.
\<close>

definition b1_distq_peer_push_ready :: "nat \<Rightarrow> nat \<Rightarrow> heap \<Rightarrow> heap" where
  "b1_distq_peer_push_ready peer node h =
     (let rs = queue_ready (peers h peer);
          lo = takeWhile (\<lambda>e. b1_distq_node_compare h node e \<ge> 0) rs;
          hi = dropWhile (\<lambda>e. b1_distq_node_compare h node e \<ge> 0) rs;
          h1 = upd_node node (\<lambda>x. x\<lparr>rb_ready := True\<rparr>) h;
          h2 = upd_peer peer (\<lambda>q. q\<lparr>queue_ready := lo @ node # hi\<rparr>) h1;
          h3 = (if lo = [] then upd_peer peer (\<lambda>q. q\<lparr>queue_ready_first := Some node\<rparr>) h2 else h2)
      in (if hi = [] then upd_peer peer (\<lambda>q. q\<lparr>queue_ready_last := Some node\<rparr>) h3 else h3))"

text \<open>\<open>rb_next\<close>: the in-order successor of an entry of the tree, if there is one.\<close>

fun rb_next :: "nat list \<Rightarrow> nat \<Rightarrow> nat option" where
  "rb_next [] a = None"
| "rb_next [x] a = None"
| "rb_next (x # y # xs) a = (if x = a then Some y else rb_next (y # xs) a)"

text \<open>
  \<open>b1_distq_peer_pop_ready\<close>. When \<open>rb_next\<close> finds no successor, \<open>container_of\<close>
  would yield an invalid pointer: this is a failure.
\<close>

definition b1_distq_peer_pop_ready :: "nat \<Rightarrow> heap \<Rightarrow> (nat option \<times> heap) option" where
  "b1_distq_peer_pop_ready peer h =
     (case queue_ready_first (peers h peer) of
        None \<Rightarrow> Some (None, h)
      | Some node \<Rightarrow>
          if queue_ready_last (peers h peer) = Some node then
            Some (Some node,
                  upd_node node (\<lambda>x. x\<lparr>rb_ready := False\<rparr>)
                    (upd_peer peer (\<lambda>q. q\<lparr>queue_ready_first := None, queue_ready_last := None,
                                           queue_ready := []\<rparr>) h))
          else
            (case rb_next (queue_ready (peers h peer)) node of
               None \<Rightarrow> None
             | Some nxt \<Rightarrow>
                 Some (Some node,
                       upd_node node (\<lambda>x. x\<lparr>rb_ready := False\<rparr>)
                         (upd_peer peer (\<lambda>q. q\<lparr>queue_ready_first := Some nxt,
                                                queue_ready := remove1 node (queue_ready q)\<rparr>) h))))"

text \<open>
  The inner loop shared by \<open>b1_distq_peer_sync\<close> and \<open>b1_distq_peer_prefetch\<close>:
  \<open>while ((node = *slot) != B1_TAIL) { ... }\<close>. The two differ in how the timestamp of
  the node's transaction is obtained: \<open>Some to\<close> stands for
  \<open>b1_distq_ts_try_sync(&node->tx->timestamp, to)\<close>, \<open>None\<close> for the plain
  \<open>atomic64_read\<close>. A \<open>NULL\<close> node or transaction is dereferenced: a failure.
\<close>

definition resolve_ts :: "s64 option \<Rightarrow> nat \<Rightarrow> heap \<Rightarrow> s64 \<times> heap" where
  "resolve_ts to tx h =
     (case to of
        None \<Rightarrow> (tx_timestamp (txs h tx), h)
      | Some t \<Rightarrow>
          (case b1_distq_ts_try_sync (tx_timestamp (txs h tx)) t of
             (v, ts, w) \<Rightarrow> (ts, (upd_tx tx (\<lambda>x. x\<lparr>tx_timestamp := v\<rparr>) h)\<lparr>warnings := warnings h + w\<rparr>)))"

definition promote :: "nat \<Rightarrow> slot \<Rightarrow> nat \<Rightarrow> s64 \<Rightarrow> heap \<Rightarrow> heap" where
  "promote peer sl node ts h =
     (let h1 = write_slot sl (next_queue (nodes h node)) h;
          h2 = upd_node node (\<lambda>x. x\<lparr>next_queue := NNull\<rparr>) h1;
          h3 = upd_node node (\<lambda>x. x\<lparr>node_timestamp :=
                 (if node_timestamp x \<noteq> 0 then node_timestamp x else ts)\<rparr>) h2
      in b1_distq_peer_push_ready peer node h3)"

partial_function (option) scan_queue :: "nat \<Rightarrow> s64 option \<Rightarrow> slot \<Rightarrow> heap \<Rightarrow> (slot \<times> heap) option" where
  "scan_queue peer to sl h =
     (case read_slot h sl of
        NTail \<Rightarrow> Some (sl, h)
      | NNull \<Rightarrow> None
      | NPtr node \<Rightarrow>
          (case node_tx (nodes h node) of
             None \<Rightarrow> None
           | Some tx \<Rightarrow>
               (case resolve_ts to tx h of
                  (ts, h1) \<Rightarrow>
                    if b1_distq_ts_committed ts
                    then scan_queue peer to sl (promote peer sl node ts h1)
                    else scan_queue peer to (SlotNext node) h1)))"

declare scan_queue.simps [code]

text \<open>
  The two rounds \<open>for (i = 0; i < 2; ++i)\<close> of the walk: the busy list, then the
  incoming list fetched by \<open>xchg(&peer->queue.incoming, B1_TAIL)\<close> and appended.
\<close>

definition scan_rounds :: "nat \<Rightarrow> s64 option \<Rightarrow> heap \<Rightarrow> heap option" where
  "scan_rounds peer to h =
     (case scan_queue peer to (SlotBusy peer) h of
        None \<Rightarrow> None
      | Some (sl, h1) \<Rightarrow>
          let fetched = queue_incoming (peers h1 peer);
              h2 = upd_peer peer (\<lambda>q. q\<lparr>queue_incoming := NTail\<rparr>) h1;
              h3 = write_slot sl fetched h2
          in (case scan_queue peer to sl h3 of
                None \<Rightarrow> None
              | Some (sl', h4) \<Rightarrow> Some h4))"

definition b1_distq_peer_sync :: "nat \<Rightarrow> s64 \<Rightarrow> heap \<Rightarrow> heap option" where
  "b1_distq_peer_sync peer to h =
     (if b1_distq_ts_committed to \<or> sint to \<le> sint (local (peers h peer))
      then Some (warn_on True h)
      else
        let h1 = upd_peer peer (\<lambda>q. q\<lparr>local := to\<rparr>) h;
            (v, w) = b1_distq_ts_force_sync (clock (peers h1 peer)) to;
            h2 = (upd_peer peer (\<lambda>q. q\<lparr>clock := v\<rparr>) h1)\<lparr>warnings := warnings h1 + w\<rparr>
        in scan_rounds peer (Some to) h2)"

definition b1_distq_peer_prefetch :: "nat \<Rightarrow> heap \<Rightarrow> heap option" where
  "b1_distq_peer_prefetch peer h = scan_rounds peer None h"

text \<open>
  \<open>b1_distq_peer_peek\<close>: the front of the queue (\<open>None\<close> for \<open>NULL\<close>) and the new
  store. Reading \<open>peer->queue.ready_last->timestamp\<close> through \<open>NULL\<close> is a failure.
\<close>

definition peek_front :: "nat \<Rightarrow> nat \<Rightarrow> heap \<Rightarrow> (nat option \<times> heap) option" where
  "peek_front peer first h =
     (if sint (node_timestamp (nodes h first)) \<ge> sint (local (peers h peer)) then
        (case queue_ready_last (peers h peer) of
           None \<Rightarrow> None
         | Some l \<Rightarrow>
             (case b1_distq_peer_sync peer (node_timestamp (nodes h l) + 1) h of
                None \<Rightarrow> None
              | Some h1 \<Rightarrow> Some (queue_ready_first (peers h1 peer),
                                 warn_on (queue_ready_first (peers h1 peer) = None) h1)))
      else Some (Some first, h))"

definition b1_distq_peer_peek :: "nat \<Rightarrow> heap \<Rightarrow> (nat option \<times> heap) option" where
  "b1_distq_peer_peek peer h =
     (case queue_ready_first (peers h peer) of
        Some first \<Rightarrow> peek_front peer first h
      | None \<Rightarrow>
          (case b1_distq_peer_prefetch peer h of
             None \<Rightarrow> None
           | Some h1 \<Rightarrow>
               (case queue_ready_first (peers h1 peer) of
                  None \<Rightarrow> Some (None, h1)
                | Some first \<Rightarrow> peek_front peer first h1)))"

definition b1_distq_peer_pop :: "nat \<Rightarrow> nat \<Rightarrow> heap \<Rightarrow> heap option" where
  "b1_distq_peer_pop peer node h =
     (case b1_distq_peer_pop_ready peer h of
        None \<Rightarrow> None
      | Some (popped, h1) \<Rightarrow>
          Some (upd_peer peer (\<lambda>q. q\<lparr>n_committed := n_committed q - 1\<rparr>)
                  (warn_on (Some node \<noteq> popped) h1)))"


section \<open>Engine operations as a caller issues them\<close>

datatype op =
    Queue nat nat nat
  | Commit nat nat
  | TxCommit nat nat
  | Peek nat
  | Pop nat nat
  | Finalize nat
  | NodeFinalize nat
  | NodeClaim nat
  | TxClaim nat

fun step :: "op \<Rightarrow> heap \<Rightarrow> heap option" where
  "step (Queue node tx dest) h = Some (b1_distq_node_queue node tx dest h)"
| "step (Commit node dest) h = Some (b1_distq_node_commit node dest h)"
| "step (TxCommit tx sender) h = Some (b1_distq_tx_commit tx sender h)"
| "step (Peek peer) h = map_option snd (b1_distq_peer_peek peer h)"
| "step (Pop peer node) h = b1_distq_peer_pop peer node h"
| "step (Finalize peer) h = map_option snd (b1_distq_peer_finalize peer h)"
| "step (NodeFinalize node) h = Some (snd (b1_distq_node_finalize node h))"
| "step (NodeClaim node) h = Some (b1_distq_node_claim node h)"
| "step (TxClaim tx) h = Some (b1_distq_tx_claim tx h)"

fun run :: "op list \<Rightarrow> heap \<Rightarrow> heap option" where
  "run [] h = Some h"
| "run (x # xs) h = (case step x h of None \<Rightarrow> None | Some h1 \<Rightarrow> run xs h1)"

text \<open>The store in which every node, transaction and peer has just been initialised.\<close>

definition fresh_heap :: heap where
  "fresh_heap =
     \<lparr>nodes = (\<lambda>_. \<lparr>node_n_refs = 0, userdata = 0, node_timestamp = 0,
                      node_tx = None, next_queue = NNull, rb_ready = False\<rparr>),
      txs = (\<lambda>_. \<lparr>tx_n_refs = 0, tx_timestamp = 0\<rparr>),
      peers = (\<lambda>_. \<lparr>clock = 0, local = 0, n_committed = 0,
                      queue_incoming = NTail, queue_busy = NTail, queue_ready = [],
                      queue_ready_first = None, queue_ready_last = None\<rparr>),
      warnings = 0\<rparr>"

section \<open>The scenarios of the unit tests (test-distq.c)\<close>

text \<open>
  \<open>b1_test_distq_unicast_isolated\<close>: peers \<open>sender\<close> and \<open>p\<close>, a transaction and a node
  are initialised and claimed, the node is queued on \<open>p\<close>, the transaction is committed
  by \<open>sender\<close> and the node is committed on \<open>p\<close>.
\<close>

definition isolated_start :: "nat \<Rightarrow> nat \<Rightarrow> nat \<Rightarrow> nat \<Rightarrow> heap \<Rightarrow> heap" where
  "isolated_start sender p tx n h =
     b1_distq_node_claim n (b1_distq_node_init n
       (b1_distq_tx_claim tx (b1_distq_tx_init tx
         (b1_distq_peer_init p (b1_distq_peer_init sender h)))))"

definition isolated_sent :: "nat \<Rightarrow> nat \<Rightarrow> nat \<Rightarrow> nat \<Rightarrow> heap \<Rightarrow> heap" where
  "isolated_sent sender p tx n h =
     b1_distq_node_commit n p (b1_distq_tx_commit tx sender
       (b1_distq_node_queue n tx p (isolated_start sender p tx n h)))"

text \<open>
  \<open>b1_test_distq_unicast_contested\<close>: one peer, two transactions and two nodes; both
  nodes are queued before either transaction commits, then the first is committed, the
  receiver peeks, and the second is committed.
\<close>

definition contested_start :: "nat \<Rightarrow> nat \<Rightarrow> nat \<Rightarrow> nat \<Rightarrow> nat \<Rightarrow> heap \<Rightarrow> heap" where
  "contested_start p tx1 tx2 n1 n2 h =
     b1_distq_node_claim n2 (b1_distq_node_claim n1
       (b1_distq_node_init n2 (b1_distq_node_init n1
         (b1_distq_tx_claim tx2 (b1_distq_tx_claim tx1
           (b1_distq_tx_init tx2 (b1_distq_tx_init tx1 (b1_distq_peer_init p h))))))))"

definition contested_queued :: "nat \<Rightarrow> nat \<Rightarrow> nat \<Rightarrow> nat \<Rightarrow> nat \<Rightarrow> heap \<Rightarrow> heap" where
  "contested_queued p tx1 tx2 n1 n2 h =
     b1_distq_node_queue n2 tx2 p
       (b1_distq_node_queue n1 tx1 p (contested_start p tx1 tx2 n1 n2 h))"

definition contested_commit1 :: "nat \<Rightarrow> nat \<Rightarrow> nat \<Rightarrow> nat \<Rightarrow> nat \<Rightarrow> heap \<Rightarrow> heap" where
  "contested_commit1 p tx1 tx2 n1 n2 h =
     b1_distq_node_commit n1 p
       (b1_distq_tx_commit tx1 p (contested_queued p tx1 tx2 n1 n2 h))"

definition contested_resolved :: "nat \<Rightarrow> nat \<Rightarrow> nat \<Rightarrow> nat \<Rightarrow> nat \<Rightarrow> heap \<Rightarrow> heap" where
  "contested_resolved p tx1 tx2 n1 n2 h =
     snd (the (b1_distq_peer_peek p (contested_commit1 p tx1 tx2 n1 n2 h)))"

definition contested_commit2 :: "nat \<Rightarrow> nat \<Rightarrow> nat \<Rightarrow> nat \<Rightarrow> nat \<Rightarrow> heap \<Rightarrow> heap" where
  "contested_commit2 p tx1 tx2 n1 n2 h =
     b1_distq_node_commit n2 p
       (b1_distq_tx_commit tx2 p (contested_resolved p tx1 tx2 n1 n2 h))"

text \<open>The receiver's \<open>peek\<close>, \<open>pop\<close>, \<open>peek\<close>, \<open>pop\<close>, \<open>peek\<close>: the three nodes returned.\<close>

definition receive_two :: "nat \<Rightarrow> heap \<Rightarrow> (nat option \<times> nat option \<times> nat option) option" where
  "receive_two p h =
     (case b1_distq_peer_peek p h of
        None \<Rightarrow> None
      | Some (a, h1) \<Rightarrow>
          (case b1_distq_peer_pop p (the a) h1 of
             None \<Rightarrow> None
           | Some h2 \<Rightarrow>
               (case b1_distq_peer_peek p h2 of
                  None \<Rightarrow> None
                | Some (b, h3) \<Rightarrow>
                    (case b1_distq_peer_pop p (the b) h3 of
                       None \<Rightarrow> None
                     | Some h4 \<Rightarrow> map_option (\<lambda>r. (a, b, fst r)) (b1_distq_peer_peek p h4)))))"

section \<open>The contracts of the engine\<close>

text \<open>
  What a caller has to respect when it issues an operation. A node is queued while it has
  no transaction and no link, has never been resolved, and its transaction is still
  tentative (the stage queues all nodes before it commits the transaction); a node is
  committed after its transaction was; a transaction is committed once; the node given
  to \<open>pop\<close> is the front of the ready queue; a node is finalized only when it is linked
  nowhere; a claim is made on an object without references.
\<close>

fun contract :: "op \<Rightarrow> heap \<Rightarrow> bool" where
  "contract (Queue node tx dest) h =
     (node_tx (nodes h node) = None \<and> next_queue (nodes h node) = NNull
      \<and> \<not> rb_ready (nodes h node) \<and> node_timestamp (nodes h node) = 0
      \<and> \<not> b1_distq_ts_committed (tx_timestamp (txs h tx)))"
| "contract (Commit node dest) h =
     (case node_tx (nodes h node) of
        None \<Rightarrow> False
      | Some tx \<Rightarrow> b1_distq_ts_committed (tx_timestamp (txs h tx)))"
| "contract (TxCommit tx sender) h = (\<not> b1_distq_ts_committed (tx_timestamp (txs h tx)))"
| "contract (Peek peer) h = True"
| "contract (Pop peer node) h = (queue_ready_first (peers h peer) = Some node)"
| "contract (Finalize peer) h = True"
| "contract (NodeFinalize node) h =
     (next_queue (nodes h node) = NNull \<and> \<not> rb_ready (nodes h node))"
| "contract (NodeClaim node) h = (node_n_refs (nodes h node) = 0)"
| "contract (TxClaim tx) h = (tx_n_refs (txs h tx) = 0)"

text \<open>
  A sequence of operations in which every operation respects its contract and returns;
  the result is the final store.
\<close>

fun run_ok :: "op list \<Rightarrow> heap \<Rightarrow> heap option" where
  "run_ok [] h = Some h"
| "run_ok (x # xs) h =
     (if contract x h then (case step x h of None \<Rightarrow> None | Some h1 \<Rightarrow> run_ok xs h1)
      else None)"

text \<open>
  The invariant behind the parity of the clocks: every peer clock is tentative, every
  node timestamp is either unset (0) or committed, and the node cached as the last of a
  ready queue has a committed timestamp.
\<close>

definition clock_inv :: "heap \<Rightarrow> bool" where
  "clock_inv h \<longleftrightarrow>
     (\<forall>p. \<not> b1_distq_ts_committed (clock (peers h p)))
     \<and> (\<forall>n. node_timestamp (nodes h n) = 0 \<or> b1_distq_ts_committed (node_timestamp (nodes h n)))
     \<and> (\<forall>p l. queue_ready_last (peers h p) = Some l \<longrightarrow>
           b1_distq_ts_committed (node_timestamp (nodes h l)))"

section \<open>The lists of a peer, as seen in the store\<close>

text \<open>
  \<open>path h p as q\<close>: starting at pointer \<open>p\<close> and following \<open>next_queue\<close> through the
  nodes \<open>as\<close>, in this order, one arrives at \<open>q\<close>. A \<open>chain\<close> is a path that ends at
  \<open>B1_TAIL\<close>.
\<close>

fun path :: "heap \<Rightarrow> nptr \<Rightarrow> nat list \<Rightarrow> nptr \<Rightarrow> bool" where
  "path h p [] q \<longleftrightarrow> p = q"
| "path h p (a # as) q \<longleftrightarrow> p = NPtr a \<and> path h (next_queue (nodes h a)) as q"

definition chain :: "heap \<Rightarrow> nptr \<Rightarrow> nat list \<Rightarrow> bool" where
  "chain h p as \<longleftrightarrow> path h p as NTail"

text \<open>
  The three containers of a peer. A node is linked into the incoming or the busy list when
  it can be reached from the head of the list, and into the ready tree when the tree holds
  it.
\<close>

datatype container = Incoming | Busy | Ready

definition linked :: "heap \<Rightarrow> nat \<Rightarrow> container \<Rightarrow> nat \<Rightarrow> bool" where
  "linked h p c n =
     (case c of
        Incoming \<Rightarrow> (\<exists>as q. path h (queue_incoming (peers h p)) as q \<and> n \<in> set as)
      | Busy \<Rightarrow> (\<exists>as q. path h (queue_busy (peers h p)) as q \<and> n \<in> set as)
      | Ready \<Rightarrow> n \<in> set (queue_ready (peers h p)))"

definition single_membership :: "heap \<Rightarrow> bool" where
  "single_membership h \<longleftrightarrow>
     (\<forall>n p c p' c'. linked h p c n \<longrightarrow> linked h p' c' n \<longrightarrow> p = p' \<and> c = c')"

text \<open>
  The structural invariant. \<open>inc p\<close> and \<open>bsy p\<close> are the contents of the incoming and
  the busy list of peer \<open>p\<close>. A peer is either finalized (both heads are \<open>NULL\<close> and
  the tree is empty) or both lists are chains. The nodes of a peer are distinct, no node
  belongs to two peers, a node in a ready tree has a transaction, a linked tree node
  and no list link, and the cached first and last entries of a ready tree are its first
  and last entries.
\<close>

definition peer_lists :: "heap \<Rightarrow> nat \<Rightarrow> nat list \<Rightarrow> nat list \<Rightarrow> bool" where
  "peer_lists h p is bs \<longleftrightarrow>
     (if queue_incoming (peers h p) = NNull
      then is = [] \<and> bs = [] \<and> queue_busy (peers h p) = NNull \<and> queue_ready (peers h p) = []
      else chain h (queue_incoming (peers h p)) is \<and> chain h (queue_busy (peers h p)) bs)"

definition members :: "heap \<Rightarrow> (nat \<Rightarrow> nat list) \<Rightarrow> (nat \<Rightarrow> nat list) \<Rightarrow> nat \<Rightarrow> nat list" where
  "members h inc bsy p = inc p @ bsy p @ queue_ready (peers h p)"

definition ready_ok :: "heap \<Rightarrow> bool" where
  "ready_ok h \<longleftrightarrow>
     (\<forall>p. \<forall>n \<in> set (queue_ready (peers h p)).
        node_tx (nodes h n) \<noteq> None \<and> rb_ready (nodes h n) \<and> next_queue (nodes h n) = NNull)"

definition cache_ok :: "heap \<Rightarrow> bool" where
  "cache_ok h \<longleftrightarrow>
     (\<forall>p. queue_ready_first (peers h p) =
            (if queue_ready (peers h p) = [] then None else Some (hd (queue_ready (peers h p))))
        \<and> queue_ready_last (peers h p) =
            (if queue_ready (peers h p) = [] then None else Some (last (queue_ready (peers h p)))))"

definition separate :: "heap \<Rightarrow> (nat \<Rightarrow> nat list) \<Rightarrow> (nat \<Rightarrow> nat list) \<Rightarrow> bool" where
  "separate h inc bsy \<longleftrightarrow>
     (\<forall>p. distinct (members h inc bsy p))
     \<and> (\<forall>p q. p \<noteq> q \<longrightarrow> set (members h inc bsy p) \<inter> set (members h inc bsy q) = {})"

definition lists_ok :: "heap \<Rightarrow> (nat \<Rightarrow> nat list) \<Rightarrow> (nat \<Rightarrow> nat list) \<Rightarrow> bool" where
  "lists_ok h inc bsy \<longleftrightarrow>
     (\<forall>p. peer_lists h p (inc p) (bsy p)) \<and> separate h inc bsy \<and> ready_ok h \<and> cache_ok h"

definition queue_inv :: "heap \<Rightarrow> bool" where
  "queue_inv h \<longleftrightarrow> (\<exists>inc bsy. lists_ok h inc bsy)"

text \<open>
  The state of the walk over the busy list of peer \<open>p\<close>: the nodes \<open>done\<close> have been
  passed and are still linked, the slot is the link behind them, and the nodes \<open>rest\<close>
  follow.
\<close>

definition slot_after :: "nat \<Rightarrow> nat list \<Rightarrow> slot" where
  "slot_after p done = (if done = [] then SlotBusy p else SlotNext (last done))"

definition scan_ok ::
  "heap \<Rightarrow> nat \<Rightarrow> (nat \<Rightarrow> nat list) \<Rightarrow> (nat \<Rightarrow> nat list) \<Rightarrow> nat list \<Rightarrow> nat list \<Rightarrow> slot \<Rightarrow> bool" where
  "scan_ok h p inc bsy done rest sl \<longleftrightarrow>
     (\<forall>q. q \<noteq> p \<longrightarrow> peer_lists h q (inc q) (bsy q))
     \<and> queue_incoming (peers h p) \<noteq> NNull
     \<and> chain h (queue_incoming (peers h p)) (inc p)
     \<and> path h (queue_busy (peers h p)) done (read_slot h sl)
     \<and> sl = slot_after p done
     \<and> chain h (read_slot h sl) rest
     \<and> bsy p = done @ rest
     \<and> separate h inc bsy \<and> ready_ok h \<and> cache_ok h"

section \<open>Observing what peek returns\<close>

text \<open>
  The timestamps of the nodes that the calls \<open>peek(p)\<close> of a sequence of operations
  return, in the order of the calls; each timestamp is read when the call returns.
\<close>

fun peeked :: "nat \<Rightarrow> op list \<Rightarrow> heap \<Rightarrow> int list" where
  "peeked p [] h = []"
| "peeked p (Peek q # xs) h =
     (case b1_distq_peer_peek q h of
        None \<Rightarrow> []
      | Some (r, h1) \<Rightarrow>
          (case r of
             Some n \<Rightarrow> (if q = p then [sint (node_timestamp (nodes h1 n))] else [])
           | None \<Rightarrow> []) @ peeked p xs h1)"
| "peeked p (x # xs) h = (case step x h of None \<Rightarrow> [] | Some h1 \<Rightarrow> peeked p xs h1)"

text \<open>
  The 63-bit clock has not run out: a transaction is committed while its timestamp and
  the sender's clock are below the last tick, so that the committed timestamp is below
  \<open>S64_MAX\<close>.
\<close>

fun in_range :: "op \<Rightarrow> heap \<Rightarrow> bool" where
  "in_range (TxCommit tx sender) h =
     (sint (tx_timestamp (txs h tx)) < 2 ^ 63 - 2 \<and> sint (clock (peers h sender)) < 2 ^ 63 - 2)"
| "in_range x h = True"

fun run_in_range :: "op list \<Rightarrow> heap \<Rightarrow> bool" where
  "run_in_range [] h = True"
| "run_in_range (x # xs) h =
     (in_range x h \<and> (case step x h of None \<Rightarrow> True | Some h1 \<Rightarrow> run_in_range xs h1))"

text \<open>
  The invariants behind the order of delivery. A node that waits in the incoming or busy
  list of a peer has never been resolved, and the timestamp of its transaction is not
  below the bound \<open>b\<close> (the peer's local clock, between operations).
\<close>

definition waiting_ok :: "heap \<Rightarrow> int \<Rightarrow> nat \<Rightarrow> bool" where
  "waiting_ok h b n \<longleftrightarrow>
     node_timestamp (nodes h n) = 0
     \<and> (\<exists>t. node_tx (nodes h n) = Some t \<and> b \<le> sint (tx_timestamp (txs h t)))"

definition ready_times :: "heap \<Rightarrow> nat \<Rightarrow> int list" where
  "ready_times h p = map (\<lambda>n. sint (node_timestamp (nodes h n))) (queue_ready (peers h p))"

definition times_ok :: "heap \<Rightarrow> bool" where
  "times_ok h \<longleftrightarrow>
     (\<forall>p. sint (local (peers h p)) \<le> sint (clock (peers h p)))
     \<and> (\<forall>p. sorted (ready_times h p))
     \<and> (\<forall>p. \<forall>n \<in> set (queue_ready (peers h p)).
           b1_distq_ts_committed (node_timestamp (nodes h n))
           \<and> sint (node_timestamp (nodes h n)) < 2 ^ 63 - 1)
     \<and> (\<forall>t. b1_distq_ts_committed (tx_timestamp (txs h t)) \<longrightarrow>
           sint (tx_timestamp (txs h t)) < 2 ^ 63 - 1)"

definition lower_bound :: "heap \<Rightarrow> nat \<Rightarrow> int \<Rightarrow> bool" where
  "lower_bound h p r \<longleftrightarrow>
     r \<le> sint (local (peers h p)) \<and> (\<forall>t \<in> set (ready_times h p). r \<le> t)"

definition order_ok :: "heap \<Rightarrow> (nat \<Rightarrow> nat list) \<Rightarrow> (nat \<Rightarrow> nat list) \<Rightarrow> bool" where
  "order_ok h inc bsy \<longleftrightarrow>
     lists_ok h inc bsy \<and> clock_inv h \<and> times_ok h
     \<and> (\<forall>p. \<forall>n \<in> set (inc p) \<union> set (bsy p). waiting_ok h (sint (local (peers h p))) n)"

definition order_inv :: "heap \<Rightarrow> bool" where
  "order_inv h \<longleftrightarrow> (\<exists>inc bsy. order_ok h inc bsy)"

text \<open>
  The same during the walk over the lists of peer \<open>p\<close>: the nodes that were passed
  satisfy the bound of the local clock, those still ahead the bound \<open>b\<close> from before the
  walk.
\<close>

definition scan_times ::
  "heap \<Rightarrow> nat \<Rightarrow> s64 option \<Rightarrow> int \<Rightarrow> (nat \<Rightarrow> nat list) \<Rightarrow> (nat \<Rightarrow> nat list)
     \<Rightarrow> nat list \<Rightarrow> nat list \<Rightarrow> bool" where
  "scan_times h p to b inc bsy done rest \<longleftrightarrow>
     clock_inv h \<and> times_ok h
     \<and> (\<forall>q. q \<noteq> p \<longrightarrow> (\<forall>n \<in> set (inc q) \<union> set (bsy q). waiting_ok h (sint (local (peers h q))) n))
     \<and> (\<forall>n \<in> set done. waiting_ok h (sint (local (peers h p))) n)
     \<and> (\<forall>n \<in> set rest \<union> set (inc p). waiting_ok h b n)
     \<and> b \<le> sint (local (peers h p))
     \<and> (case to of None \<Rightarrow> b = sint (local (peers h p))
                   | Some t \<Rightarrow> local (peers h p) = t \<and> \<not> b1_distq_ts_committed t)"

section \<open>Basic facts about the store\<close>

lemma nodes_upd_node [simp]: "nodes (upd_node a f h) = (nodes h)(a := f (nodes h a))"
  and txs_upd_node [simp]: "txs (upd_node a f h) = txs h"
  and peers_upd_node [simp]: "peers (upd_node a f h) = peers h"
  and warnings_upd_node [simp]: "warnings (upd_node a f h) = warnings h"
  by (simp_all add: upd_node_def)

lemma nodes_upd_tx [simp]: "nodes (upd_tx a g h) = nodes h"
  and txs_upd_tx [simp]: "txs (upd_tx a g h) = (txs h)(a := g (txs h a))"
  and peers_upd_tx [simp]: "peers (upd_tx a g h) = peers h"
  and warnings_upd_tx [simp]: "warnings (upd_tx a g h) = warnings h"
  by (simp_all add: upd_tx_def)

lemma nodes_upd_peer [simp]: "nodes (upd_peer a k h) = nodes h"
  and txs_upd_peer [simp]: "txs (upd_peer a k h) = txs h"
  and peers_upd_peer [simp]: "peers (upd_peer a k h) = (peers h)(a := k (peers h a))"
  and warnings_upd_peer [simp]: "warnings (upd_peer a k h) = warnings h"
  by (simp_all add: upd_peer_def)

lemma nodes_warn_on [simp]: "nodes (warn_on c h) = nodes h"
  and txs_warn_on [simp]: "txs (warn_on c h) = txs h"
  and peers_warn_on [simp]: "peers (warn_on c h) = peers h"
  and warnings_warn_on [simp]:
    "warnings (warn_on c h) = (if c then Suc (warnings h) else warnings h)"
  by (simp_all add: warn_on_def)

lemma nodes_write_slot:
  "nodes (write_slot sl v h) =
     (case sl of SlotBusy p \<Rightarrow> nodes h
               | SlotNext n \<Rightarrow> (nodes h)(n := (nodes h n)\<lparr>next_queue := v\<rparr>))"
  and txs_write_slot [simp]: "txs (write_slot sl v h) = txs h"
  and peers_write_slot:
  "peers (write_slot sl v h) =
     (case sl of SlotBusy p \<Rightarrow> (peers h)(p := (peers h p)\<lparr>queue_busy := v\<rparr>)
               | SlotNext n \<Rightarrow> peers h)"
  and warnings_write_slot [simp]: "warnings (write_slot sl v h) = warnings h"
  by (simp_all add: write_slot_def split: slot.splits)

lemma txs_push_ready [simp]: "txs (b1_distq_peer_push_ready p n h) = txs h"
  and warnings_push_ready [simp]: "warnings (b1_distq_peer_push_ready p n h) = warnings h"
  by (simp_all add: b1_distq_peer_push_ready_def Let_def)

lemma txs_promote [simp]: "txs (promote p sl n ts h) = txs h"
  and warnings_promote [simp]: "warnings (promote p sl n ts h) = warnings h"
  by (simp_all add: promote_def Let_def)

lemma heap_eqI:
  "nodes h = nodes h' \<Longrightarrow> txs h = txs h' \<Longrightarrow> peers h = peers h' \<Longrightarrow>
   warnings h = warnings h' \<Longrightarrow> (h :: heap) = h'"
  by simp

section \<open>Facts about timestamps\<close>

lemma committed_iff_odd: "b1_distq_ts_committed ts \<longleftrightarrow> odd ts"
  unfolding b1_distq_ts_committed_def
  by (simp add: and_one_eq odd_iff_mod_2_eq_one)

lemma even_sint_s64: "even (sint (v::s64)) \<longleftrightarrow> even v"
  using bit_sint_iff [of v 0] by (simp add: bit_0)

lemma sint_tentative_succ:
  assumes "\<not> b1_distq_ts_committed (v::s64)"
  shows "sint (v + 1) = sint v + 1"
proof -
  have ev: "even (sint v)" using assms by (simp add: committed_iff_odd even_sint_s64)
  have "sint v < 2 ^ 63" using sint_lt [of v] by simp
  moreover have "odd ((2::int) ^ 63 - 1)" by simp
  then have "sint v \<noteq> 2 ^ 63 - 1" using ev by metis
  ultimately have lt: "sint v + 1 < 2 ^ 63" by linarith
  have ge: "- (2 ^ 63) \<le> sint v" using sint_ge [of v] by simp
  have "sint (v + 1) = signed_take_bit 63 (sint v + 1)"
    by (simp add: sint_word_ariths)
  also have "\<dots> = sint v + 1"
    using lt ge by (simp add: signed_take_bit_int_eq_self_iff)
  finally show ?thesis .
qed

lemma force_sync_committed:
  "b1_distq_ts_committed v \<Longrightarrow> fst (b1_distq_ts_force_sync v to) = v"
  by (simp add: b1_distq_ts_force_sync_def Let_def)

lemma try_sync_committed:
  "b1_distq_ts_committed v \<Longrightarrow> fst (b1_distq_ts_try_sync v to) = v"
  by (simp add: b1_distq_ts_try_sync_def Let_def)

lemma resolve_ts_committed:
  "b1_distq_ts_committed (tx_timestamp (txs h t)) \<Longrightarrow>
   tx_timestamp (txs (snd (resolve_ts to tx h)) t) = tx_timestamp (txs h t)"
  by (auto simp: resolve_ts_def b1_distq_ts_try_sync_def Let_def split: option.splits)

section \<open>The loop invariant rule of the queue walk\<close>

lemma scan_queue_rule:
  assumes run: "scan_queue p to sl h = Some (sl', h')"
    and init: "I sl h"
    and move: "\<And>sl h node tx ts h1. I sl h \<Longrightarrow> read_slot h sl = NPtr node \<Longrightarrow>
        node_tx (nodes h node) = Some tx \<Longrightarrow> resolve_ts to tx h = (ts, h1) \<Longrightarrow>
        b1_distq_ts_committed ts \<Longrightarrow> I sl (promote p sl node ts h1)"
    and skip: "\<And>sl h node tx ts h1. I sl h \<Longrightarrow> read_slot h sl = NPtr node \<Longrightarrow>
        node_tx (nodes h node) = Some tx \<Longrightarrow> resolve_ts to tx h = (ts, h1) \<Longrightarrow>
        \<not> b1_distq_ts_committed ts \<Longrightarrow> I (SlotNext node) h1"
  shows "I sl' h' \<and> read_slot h' sl' = NTail"
proof -
  have "p' = p \<and> to' = to \<and> I sl h \<longrightarrow> I (fst r) (snd r) \<and> read_slot (snd r) (fst r) = NTail"
    if "scan_queue p' to' sl h = Some r" for p' to' sl h r
    using that
  proof (induction p' to' sl h r rule: scan_queue.raw_induct [rotated 1, consumes 1])
    case (1 scan p' to' sl h r)
    show ?case
    proof (intro impI, elim conjE)
      assume eqs: "p' = p" "to' = to" and inv: "I sl h"
      show "I (fst r) (snd r) \<and> read_slot (snd r) (fst r) = NTail"
      proof (cases "read_slot h sl")
        case NNull with 1(2) show ?thesis by simp
      next
        case NTail with 1(2) inv show ?thesis by auto
      next
        case (NPtr node)
        show ?thesis
        proof (cases "node_tx (nodes h node)")
          case None with 1(2) NPtr show ?thesis by simp
        next
          case (Some tx)
          obtain ts h1 where r: "resolve_ts to tx h = (ts, h1)" by (cases "resolve_ts to tx h")
          show ?thesis
          proof (cases "b1_distq_ts_committed ts")
            case True
            with 1(2) NPtr Some r eqs have "scan p to sl (promote p sl node ts h1) = Some r" by simp
            from 1(1) [OF this] eqs move [OF inv NPtr Some r True] show ?thesis by simp
          next
            case False
            with 1(2) NPtr Some r eqs have "scan p to (SlotNext node) h1 = Some r" by simp
            from 1(1) [OF this] eqs skip [OF inv NPtr Some r False] show ?thesis by simp
          qed
        qed
      qed
    qed
  qed
  from this [OF run] init show ?thesis by simp
qed

text \<open>A property of the store alone that each pass of the loop keeps holds at the end.\<close>

lemma scan_queue_preserves:
  assumes run: "scan_queue p to sl h = Some (sl', h')"
    and init: "Q h"
    and res: "\<And>h tx. Q h \<Longrightarrow> Q (snd (resolve_ts to tx h))"
    and pro: "\<And>sl h node ts. Q h \<Longrightarrow> b1_distq_ts_committed ts \<Longrightarrow>
               (\<exists>tx h0. node_tx (nodes h0 node) = Some tx \<and> resolve_ts to tx h0 = (ts, h)) \<Longrightarrow>
               read_slot h sl = NPtr node \<Longrightarrow> Q (promote p sl node ts h)"
  shows "Q h'"
proof -
  have rs: "read_slot h1 sl = read_slot h sl" if "resolve_ts to tx h = (ts, h1)" for h h1 sl tx ts
    using that by (auto simp: resolve_ts_def read_slot_def split: option.splits prod.splits slot.splits)
  have "Q h' \<and> read_slot h' sl' = NTail"
  proof (rule scan_queue_rule [where I = "\<lambda>sl h. Q h", OF run init], goal_cases)
    case (1 sl h node tx ts h1)
    have "Q h1" using res [OF 1(1), of tx] 1(4) by simp
    moreover have "read_slot h1 sl = NPtr node" using rs [OF 1(4)] 1(2) by simp
    ultimately show ?case using pro [of h1 ts node sl] 1 by blast
  next
    case (2 sl h node tx ts h1)
    show ?case using res [OF 2(1), of tx] 2(4) by simp
  qed
  then show ?thesis by simp
qed

lemma find_tail_rule:
  assumes run: "find_tail sl h = Some sl'"
    and init: "I sl"
    and nxt: "\<And>sl n. I sl \<Longrightarrow> read_slot h sl = NPtr n \<Longrightarrow> I (SlotNext n)"
  shows "I sl' \<and> read_slot h sl' = NTail"
proof -
  have "h0 = h \<and> I sl \<longrightarrow> I r \<and> read_slot h r = NTail"
    if "find_tail sl h0 = Some r" for sl h0 r
    using that
  proof (induction sl h0 r rule: find_tail.raw_induct [rotated 1, consumes 1])
    case (1 ft sl h0 r)
    show ?case
    proof (intro impI, elim conjE)
      assume eq: "h0 = h" and inv: "I sl"
      show "I r \<and> read_slot h r = NTail"
      proof (cases "read_slot h sl")
        case NNull with 1(2) eq show ?thesis by simp
      next
        case NTail with 1(2) eq inv show ?thesis by auto
      next
        case (NPtr n)
        with 1(2) eq have "ft (SlotNext n) h = Some r" by simp
        from 1(1) [OF this] nxt [OF inv NPtr] show ?thesis by simp
      qed
    qed
  qed
  from this [OF run] init show ?thesis by simp
qed

lemma fold_detach_ready_frame [simp]:
  "txs (fst (fold detach_ready xs (h, l))) = txs h"
  "peers (fst (fold detach_ready xs (h, l))) = peers h"
  "warnings (fst (fold detach_ready xs (h, l))) = warnings h"
  by (induction xs arbitrary: h l; simp add: detach_ready_def)+

lemma finalize_frame:
  assumes "b1_distq_peer_finalize p h = Some (l, h')"
  shows "txs h' = txs h \<and> warnings h' = warnings h \<and> queue_incoming (peers h' p) = NNull"
proof -
  let ?h1 = "upd_peer p (\<lambda>q. q\<lparr>queue_incoming := NNull\<rparr>) h"
  show ?thesis
  proof (cases "queue_incoming (peers h p) = NNull")
    case True
    with assms show ?thesis by (auto simp: b1_distq_peer_finalize_def Let_def)
  next
    case False
    with assms obtain sl where sl: "find_tail (SlotBusy p) ?h1 = Some sl"
      by (auto simp: b1_distq_peer_finalize_def Let_def split: option.splits)
    let ?h3 = "upd_peer p (\<lambda>q. q\<lparr>queue_busy := NNull\<rparr>) (write_slot sl (queue_incoming (peers h p)) ?h1)"
    obtain h4 l3 where f: "fold detach_ready (queue_ready (peers ?h3 p)) (?h3, queue_busy (peers (write_slot sl (queue_incoming (peers h p)) ?h1) p)) = (h4, l3)"
      by (meson surj_pair)
    have "h4 = fst (fold detach_ready (queue_ready (peers ?h3 p)) (?h3, queue_busy (peers (write_slot sl (queue_incoming (peers h p)) ?h1) p)))"
      by (simp only: f fst_conv)
    then have h4: "txs h4 = txs ?h3" "peers h4 = peers ?h3" "warnings h4 = warnings ?h3"
      by (simp_all only: fold_detach_ready_frame)
    from assms False sl f have "h' = upd_peer p (\<lambda>q. q\<lparr>queue_ready := [], queue_ready_first := None,
                                                    queue_ready_last := None\<rparr>) h4"
      by (simp add: b1_distq_peer_finalize_def Let_def)
    with h4 show ?thesis by (cases sl) (simp_all add: peers_write_slot)
  qed
qed

lemma tx_commit_ts:
  "tx_timestamp (txs (b1_distq_tx_commit tx sender h) t) =
     (if t = tx then fst (b1_distq_ts_force_sync (tx_timestamp (txs h tx)) (clock (peers h sender))) + 1
      else tx_timestamp (txs h t))"
  by (simp add: b1_distq_tx_commit_def Let_def split: prod.splits)

section \<open>Committing a transaction\<close>

text \<open>
  C4. For a tentative transaction and a sender whose clock is tentative (as every peer
  clock is), \<open>b1_distq_tx_commit\<close> leaves the transaction's timestamp at the maximum of
  its previous value and the sender's clock, plus one, and this value is committed. A
  freshly initialised transaction committed against a freshly initialised peer gets
  timestamp 1.
\<close>

theorem tx_commit_postcondition:
  assumes "\<not> b1_distq_ts_committed (tx_timestamp (txs h tx))"
    and "\<not> b1_distq_ts_committed (clock (peers h sender))"
  shows "sint (tx_timestamp (txs (b1_distq_tx_commit tx sender h) tx)) =
           max (sint (tx_timestamp (txs h tx))) (sint (clock (peers h sender))) + 1
         \<and> b1_distq_ts_committed (tx_timestamp (txs (b1_distq_tx_commit tx sender h) tx))
         \<and> tx_timestamp (txs (b1_distq_tx_commit tx sender
               (b1_distq_peer_init sender (b1_distq_tx_init tx h))) tx) = 1"
proof -
  let ?v = "tx_timestamp (txs h tx)" and ?c = "clock (peers h sender)"
  let ?m = "fst (b1_distq_ts_force_sync ?v ?c)"
  have m: "?m = (if sint ?c \<le> sint ?v then ?v else ?c)"
    using assms by (simp add: b1_distq_ts_force_sync_def Let_def)
  then have t: "\<not> b1_distq_ts_committed ?m" using assms by simp
  have "sint (?m + 1) = sint ?m + 1" by (rule sint_tentative_succ [OF t])
  moreover have "sint ?m = max (sint ?v) (sint ?c)" using m by (simp add: max_def)
  moreover have "b1_distq_ts_committed (?m + 1)" using t by (simp add: committed_iff_odd)
  moreover have "tx_timestamp (txs (b1_distq_tx_commit tx sender
               (b1_distq_peer_init sender (b1_distq_tx_init tx h))) tx) = 1"
    by (simp add: tx_commit_ts b1_distq_peer_init_def b1_distq_tx_init_def
        b1_distq_ts_force_sync_def b1_distq_ts_committed_def)
  ultimately show ?thesis by (simp add: tx_commit_ts)
qed

theorem tx_commit_postcondition_witness:
  "\<not> b1_distq_ts_committed (tx_timestamp (txs (upd_peer 0 (\<lambda>q. q\<lparr>clock := 4\<rparr>) (upd_tx 1 (\<lambda>t. t\<lparr>tx_timestamp := 2\<rparr>) fresh_heap)) 1))
   \<and> \<not> b1_distq_ts_committed (clock (peers (upd_peer 0 (\<lambda>q. q\<lparr>clock := 4\<rparr>) (upd_tx 1 (\<lambda>t. t\<lparr>tx_timestamp := 2\<rparr>) fresh_heap)) 0))
   \<and> sint (tx_timestamp (txs (b1_distq_tx_commit 1 0 (upd_peer 0 (\<lambda>q. q\<lparr>clock := 4\<rparr>) (upd_tx 1 (\<lambda>t. t\<lparr>tx_timestamp := 2\<rparr>) fresh_heap))) 1)) = 5"
  using tx_commit_postcondition [of "upd_peer 0 (\<lambda>q. q\<lparr>clock := 4\<rparr>) (upd_tx 1 (\<lambda>t. t\<lparr>tx_timestamp := 2\<rparr>) fresh_heap)" 1 0]
  by (simp add: fresh_heap_def b1_distq_ts_committed_def)

section \<open>Queueing on a closed destination\<close>

lemma refcount_succ:
  assumes "sint (r::refcount_t) < 2 ^ 31 - 1"
  shows "sint (r + 1) = sint r + 1"
proof -
  have ge: "- (2 ^ 31) \<le> sint r" using sint_ge [of r] by simp
  have "sint (r + 1) = signed_take_bit 31 (sint r + 1)"
    by (simp add: sint_word_ariths)
  also have "\<dots> = sint r + 1"
    using assms ge by (simp add: signed_take_bit_int_eq_self_iff)
  finally show ?thesis .
qed

text \<open>On a counter that is held and not at its maximum, \<open>refcount_inc\<close> adds one.\<close>

lemma refcount_inc_held:
  assumes "0 < sint r" and "sint r < 2 ^ 31 - 1"
  shows "refcount_inc r = r + 1"
proof -
  from assms(1) have "r \<noteq> 0" by auto
  then show ?thesis using assms refcount_succ [OF assms(2)] by (simp add: refcount_inc_def)
qed

lemma refcount_inc_not_one: "refcount_inc r \<noteq> 1"
  by (auto simp: refcount_inc_def REFCOUNT_SATURATED_def)

text \<open>
  The decrement that follows an increment never takes the last reference, so the
  \<open>B1_WARN_ON\<close> around it in \<open>b1_distq_node_queue\<close> does not fire.
\<close>

lemma refcount_dec_inc_result: "snd (refcount_dec_and_test (refcount_inc r)) = False"
  using refcount_inc_not_one [of r] by (simp add: refcount_dec_and_test_def)

lemma refcount_dec_inc_held:
  assumes "0 < sint r" and "sint r < 2 ^ 31 - 1"
  shows "fst (refcount_dec_and_test (refcount_inc r)) = r"
proof -
  have s: "sint (r + 1) = sint r + 1" by (rule refcount_succ [OF assms(2)])
  from assms(1) have "r \<noteq> 0" by auto
  then have "r + 1 \<noteq> 1" by simp
  then show ?thesis
    unfolding refcount_inc_held [OF assms] using assms s
    by (simp add: refcount_dec_and_test_def)
qed

lemma refcount_dec_succ_held:
  assumes "0 < sint r" and "sint r < 2 ^ 31 - 1"
  shows "fst (refcount_dec_and_test (r + 1)) = r"
  using refcount_dec_inc_held [OF assms] unfolding refcount_inc_held [OF assms] .

text \<open>
  A counter without a reference saturates: incrementing it from zero is a use after
  free for the kernel, and the decrement leaves it saturated.
\<close>

lemma refcount_inc_unheld:
  "refcount_inc 0 = 3221225472"
  "fst (refcount_dec_and_test (refcount_inc 0)) = 3221225472"
  "fst (refcount_dec_and_test 3221225472) = 3221225472"
  by (simp_all add: refcount_dec_and_test_def refcount_inc_def REFCOUNT_SATURATED_def)

lemma queue_closed_heap:
  assumes "node_tx (nodes h n) = None" "next_queue (nodes h n) = NNull"
    and "queue_incoming (peers h dest) = NNull"
  shows "b1_distq_node_queue n tx dest h =
     upd_tx tx (\<lambda>t. t\<lparr>tx_n_refs := refcount_inc (tx_n_refs t)\<rparr>)
       (upd_node n (\<lambda>x. x\<lparr>node_n_refs := fst (refcount_dec_and_test (refcount_inc (node_n_refs x))),
                           node_tx := Some tx\<rparr>) h)"
  using assms
  by (intro heap_eqI)
     (auto simp: b1_distq_node_queue_def Let_def case_prod_beta refcount_dec_inc_result
        warn_on_def fun_eq_iff)

text \<open>
  C6. When a node with no transaction and no list link is queued on a peer whose incoming
  list is closed (\<open>NULL\<close>), the node stays unlinked and no node's link changes, no peer
  changes (the incoming list stays closed and no clock moves), no transaction timestamp
  is synchronised; and for a node on which the caller holds a reference (its counter is
  positive and below \<open>INT_MAX\<close>, so that the increment does not saturate) the reference
  count is back at its old value and no warning is raised.
\<close>

theorem queue_closed_destination:
  assumes "node_tx (nodes h n) = None" and "next_queue (nodes h n) = NNull"
    and "queue_incoming (peers h dest) = NNull"
  shows "next_queue (nodes (b1_distq_node_queue n tx dest h) n) = NNull
     \<and> (\<forall>m. next_queue (nodes (b1_distq_node_queue n tx dest h) m) = next_queue (nodes h m))
     \<and> peers (b1_distq_node_queue n tx dest h) = peers h
     \<and> queue_incoming (peers (b1_distq_node_queue n tx dest h) dest) = NNull
     \<and> (\<forall>t. tx_timestamp (txs (b1_distq_node_queue n tx dest h) t) = tx_timestamp (txs h t))
     \<and> (0 < sint (node_n_refs (nodes h n)) \<and> sint (node_n_refs (nodes h n)) < 2 ^ 31 - 1 \<longrightarrow>
          node_n_refs (nodes (b1_distq_node_queue n tx dest h) n) = node_n_refs (nodes h n)
          \<and> warnings (b1_distq_node_queue n tx dest h) = warnings h)"
  using assms by (simp add: queue_closed_heap [OF assms] refcount_dec_inc_held)

theorem queue_closed_destination_witness:
  "node_tx (nodes (b1_distq_node_claim 1 (upd_peer 0 (\<lambda>q. q\<lparr>queue_incoming := NNull\<rparr>) fresh_heap)) 1) = None
   \<and> next_queue (nodes (b1_distq_node_claim 1 (upd_peer 0 (\<lambda>q. q\<lparr>queue_incoming := NNull\<rparr>) fresh_heap)) 1) = NNull
   \<and> queue_incoming (peers (b1_distq_node_claim 1 (upd_peer 0 (\<lambda>q. q\<lparr>queue_incoming := NNull\<rparr>) fresh_heap)) 0) = NNull
   \<and> node_n_refs (nodes (b1_distq_node_claim 1 (upd_peer 0 (\<lambda>q. q\<lparr>queue_incoming := NNull\<rparr>) fresh_heap)) 1) = 1
   \<and> 0 < sint (node_n_refs (nodes (b1_distq_node_claim 1 (upd_peer 0 (\<lambda>q. q\<lparr>queue_incoming := NNull\<rparr>) fresh_heap)) 1))
   \<and> sint (node_n_refs (nodes (b1_distq_node_claim 1 (upd_peer 0 (\<lambda>q. q\<lparr>queue_incoming := NNull\<rparr>) fresh_heap)) 1)) < 2 ^ 31 - 1
   \<and> next_queue (nodes (b1_distq_node_queue 1 2 0
         (b1_distq_node_claim 1 (upd_peer 0 (\<lambda>q. q\<lparr>queue_incoming := NNull\<rparr>) fresh_heap))) 1) = NNull
   \<and> node_n_refs (nodes (b1_distq_node_queue 1 2 0
         (b1_distq_node_claim 1 (upd_peer 0 (\<lambda>q. q\<lparr>queue_incoming := NNull\<rparr>) fresh_heap))) 1) = 1
   \<and> warnings (b1_distq_node_queue 1 2 0
         (b1_distq_node_claim 1 (upd_peer 0 (\<lambda>q. q\<lparr>queue_incoming := NNull\<rparr>) fresh_heap))) = 0"
  using queue_closed_destination [of "b1_distq_node_claim 1 (upd_peer 0 (\<lambda>q. q\<lparr>queue_incoming := NNull\<rparr>) fresh_heap)" 1 0 2]
  by (simp add: fresh_heap_def b1_distq_node_claim_def)

text \<open>
  C10. When \<open>b1_distq_node_queue\<close> drops the node because the destination is closed, the
  node nevertheless points at the transaction, and \<open>b1_distq_node_finalize\<close> then returns
  the transaction and releases nothing; for a transaction and a node on which the caller
  holds references (counters positive and below \<open>INT_MAX\<close>) the transaction's reference
  count is one higher, before and after \<open>b1_distq_node_finalize\<close>, while the node's own
  count is unchanged: the reference is still the caller's.
\<close>

theorem queue_closed_keeps_tx_reference:
  assumes "node_tx (nodes h n) = None" and "next_queue (nodes h n) = NNull"
    and "queue_incoming (peers h dest) = NNull"
  shows "node_tx (nodes (b1_distq_node_queue n tx dest h) n) = Some tx
     \<and> fst (b1_distq_node_finalize n (b1_distq_node_queue n tx dest h)) = Some tx
     \<and> node_tx (nodes (snd (b1_distq_node_finalize n (b1_distq_node_queue n tx dest h))) n) = None
     \<and> tx_n_refs (txs (snd (b1_distq_node_finalize n (b1_distq_node_queue n tx dest h))) tx)
         = tx_n_refs (txs (b1_distq_node_queue n tx dest h) tx)
     \<and> (0 < sint (tx_n_refs (txs h tx)) \<and> sint (tx_n_refs (txs h tx)) < 2 ^ 31 - 1 \<longrightarrow>
          tx_n_refs (txs (b1_distq_node_queue n tx dest h) tx) = tx_n_refs (txs h tx) + 1
          \<and> sint (tx_n_refs (txs (b1_distq_node_queue n tx dest h) tx))
              = sint (tx_n_refs (txs h tx)) + 1
          \<and> tx_n_refs (txs (snd (b1_distq_node_finalize n (b1_distq_node_queue n tx dest h))) tx)
              = tx_n_refs (txs h tx) + 1)
     \<and> (0 < sint (node_n_refs (nodes h n)) \<and> sint (node_n_refs (nodes h n)) < 2 ^ 31 - 1 \<longrightarrow>
          node_n_refs (nodes (b1_distq_node_queue n tx dest h) n) = node_n_refs (nodes h n))"
  using assms
  by (simp add: queue_closed_heap [OF assms] b1_distq_node_finalize_def refcount_dec_inc_held
      refcount_dec_succ_held refcount_inc_held refcount_succ)

theorem queue_closed_keeps_tx_reference_witness:
  "node_tx (nodes (b1_distq_tx_claim 2 (b1_distq_node_claim 1 (upd_peer 0 (\<lambda>q. q\<lparr>queue_incoming := NNull\<rparr>) fresh_heap))) 1) = None
   \<and> next_queue (nodes (b1_distq_tx_claim 2 (b1_distq_node_claim 1 (upd_peer 0 (\<lambda>q. q\<lparr>queue_incoming := NNull\<rparr>) fresh_heap))) 1) = NNull
   \<and> queue_incoming (peers (b1_distq_tx_claim 2 (b1_distq_node_claim 1 (upd_peer 0 (\<lambda>q. q\<lparr>queue_incoming := NNull\<rparr>) fresh_heap))) 0) = NNull
   \<and> tx_n_refs (txs (b1_distq_tx_claim 2 (b1_distq_node_claim 1 (upd_peer 0 (\<lambda>q. q\<lparr>queue_incoming := NNull\<rparr>) fresh_heap))) 2) = 1
   \<and> node_n_refs (nodes (b1_distq_tx_claim 2 (b1_distq_node_claim 1 (upd_peer 0 (\<lambda>q. q\<lparr>queue_incoming := NNull\<rparr>) fresh_heap))) 1) = 1
   \<and> fst (b1_distq_node_finalize 1 (b1_distq_node_queue 1 2 0
         (b1_distq_tx_claim 2 (b1_distq_node_claim 1 (upd_peer 0 (\<lambda>q. q\<lparr>queue_incoming := NNull\<rparr>) fresh_heap))))) = Some 2
   \<and> tx_n_refs (txs (b1_distq_node_queue 1 2 0 (b1_distq_tx_claim 2 (b1_distq_node_claim 1 (upd_peer 0 (\<lambda>q. q\<lparr>queue_incoming := NNull\<rparr>) fresh_heap)))) 2) = 2
   \<and> tx_n_refs (txs (snd (b1_distq_node_finalize 1 (b1_distq_node_queue 1 2 0
         (b1_distq_tx_claim 2 (b1_distq_node_claim 1 (upd_peer 0 (\<lambda>q. q\<lparr>queue_incoming := NNull\<rparr>) fresh_heap)))))) 2) = 2
   \<and> node_n_refs (nodes (b1_distq_node_queue 1 2 0 (b1_distq_tx_claim 2 (b1_distq_node_claim 1 (upd_peer 0 (\<lambda>q. q\<lparr>queue_incoming := NNull\<rparr>) fresh_heap)))) 1) = 1"
  using queue_closed_keeps_tx_reference [of "b1_distq_tx_claim 2 (b1_distq_node_claim 1 (upd_peer 0 (\<lambda>q. q\<lparr>queue_incoming := NNull\<rparr>) fresh_heap))" 1 0 2]
  by (simp add: fresh_heap_def b1_distq_node_claim_def b1_distq_tx_claim_def)

text \<open>
  Without a reference the counters saturate instead: queued on a closed peer, a node
  and a transaction that were initialised but never claimed end at
  \<open>REFCOUNT_SATURATED\<close>.
\<close>

lemma queue_closed_unheld:
  "node_n_refs (nodes (b1_distq_node_queue 1 2 0
      (upd_peer 0 (\<lambda>q. q\<lparr>queue_incoming := NNull\<rparr>) fresh_heap)) 1) = 3221225472
   \<and> tx_n_refs (txs (b1_distq_node_queue 1 2 0
      (upd_peer 0 (\<lambda>q. q\<lparr>queue_incoming := NNull\<rparr>) fresh_heap)) 2) = 3221225472"
  by (simp add: queue_closed_heap fresh_heap_def refcount_inc_unheld)

section \<open>Finalizing a peer twice\<close>

lemma upd_peer_same: "k (peers h a) = peers h a \<Longrightarrow> upd_peer a k h = h"
  by (simp add: upd_peer_def)

text \<open>
  C7, as stated, fails: on a freshly initialised peer both the first and the second
  \<open>b1_distq_peer_finalize\<close> return \<open>B1_TAIL\<close>, which is not the closed marker \<open>NULL\<close>.
\<close>

theorem double_finalize_returns_closed_counterexample:
  "b1_distq_peer_finalize 0 fresh_heap \<noteq> None
   \<and> b1_distq_peer_finalize 0 (snd (the (b1_distq_peer_finalize 0 fresh_heap))) \<noteq> None
   \<and> fst (the (b1_distq_peer_finalize 0 (snd (the (b1_distq_peer_finalize 0 fresh_heap))))) = NTail
   \<and> fst (the (b1_distq_peer_finalize 0 (snd (the (b1_distq_peer_finalize 0 fresh_heap))))) \<noteq> NNull"
  by (simp add: b1_distq_peer_finalize_def fresh_heap_def Let_def find_tail.simps read_slot_def
      write_slot_def detach_ready_def)

text \<open>
  C7, amended. Once \<open>b1_distq_peer_finalize\<close> has returned on a peer, every further call
  returns the empty list \<open>B1_TAIL\<close> and leaves the store as it is (the incoming list stays
  closed).
\<close>

theorem double_finalize_returns_tail:
  assumes "b1_distq_peer_finalize p h = Some (l, h')"
  shows "b1_distq_peer_finalize p h' = Some (NTail, h')"
proof -
  have "queue_incoming (peers h' p) = NNull" using finalize_frame [OF assms] by simp
  then show ?thesis
    by (simp add: b1_distq_peer_finalize_def Let_def upd_peer_same)
qed

theorem double_finalize_returns_tail_witness:
  "b1_distq_peer_finalize 0 (b1_distq_node_queue 1 1 0 fresh_heap) \<noteq> None
   \<and> fst (the (b1_distq_peer_finalize 0 (b1_distq_node_queue 1 1 0 fresh_heap))) = NPtr 1
   \<and> b1_distq_peer_finalize 0 (snd (the (b1_distq_peer_finalize 0 (b1_distq_node_queue 1 1 0 fresh_heap))))
      = Some (NTail, snd (the (b1_distq_peer_finalize 0 (b1_distq_node_queue 1 1 0 fresh_heap))))"
proof -
  obtain h' where e: "b1_distq_peer_finalize 0 (b1_distq_node_queue 1 1 0 fresh_heap) = Some (NPtr 1, h')"
    by (simp add: b1_distq_peer_finalize_def b1_distq_node_queue_def fresh_heap_def Let_def
        find_tail.simps read_slot_def write_slot_def detach_ready_def b1_distq_ts_force_sync_def
        b1_distq_ts_committed_def)
  from double_finalize_returns_tail [OF e] e show ?thesis by simp
qed

section \<open>Commit finality\<close>

lemma scan_queue_committed:
  assumes "scan_queue p to sl h = Some (sl', h')"
    and "b1_distq_ts_committed (tx_timestamp (txs h t))"
  shows "tx_timestamp (txs h' t) = tx_timestamp (txs h t)"
proof -
  define v where "v = tx_timestamp (txs h t)"
  have "tx_timestamp (txs h' t) = v"
  proof (rule scan_queue_preserves [where Q = "\<lambda>h. tx_timestamp (txs h t) = v", OF assms(1)])
    show "tx_timestamp (txs h t) = v" by (simp add: v_def)
  next
    fix g :: heap and tx assume "tx_timestamp (txs g t) = v"
    then show "tx_timestamp (txs (snd (resolve_ts to tx g)) t) = v"
      using assms(2) resolve_ts_committed [of g t to tx] by (simp add: v_def)
  qed simp
  then show ?thesis by (simp add: v_def)
qed

lemma scan_rounds_committed:
  assumes "scan_rounds p to h = Some h'"
    and "b1_distq_ts_committed (tx_timestamp (txs h t))"
  shows "tx_timestamp (txs h' t) = tx_timestamp (txs h t)"
proof -
  from assms(1) obtain sl h1 where 1: "scan_queue p to (SlotBusy p) h = Some (sl, h1)"
    by (auto simp: scan_rounds_def split: option.splits)
  let ?h3 = "write_slot sl (queue_incoming (peers h1 p)) (upd_peer p (\<lambda>q. q\<lparr>queue_incoming := NTail\<rparr>) h1)"
  from assms(1) 1 obtain sl2 where 2: "scan_queue p to sl ?h3 = Some (sl2, h')"
    by (auto simp: scan_rounds_def Let_def split: option.splits)
  have a: "tx_timestamp (txs h1 t) = tx_timestamp (txs h t)"
    by (rule scan_queue_committed [OF 1 assms(2)])
  have "tx_timestamp (txs h' t) = tx_timestamp (txs ?h3 t)"
    by (rule scan_queue_committed [OF 2]) (simp add: a assms(2))
  with a show ?thesis by simp
qed

lemma sync_committed:
  assumes "b1_distq_peer_sync p to h = Some h'"
    and "b1_distq_ts_committed (tx_timestamp (txs h t))"
  shows "tx_timestamp (txs h' t) = tx_timestamp (txs h t)"
proof (cases "b1_distq_ts_committed to \<or> sint to \<le> sint (local (peers h p))")
  case True
  with assms show ?thesis by (auto simp: b1_distq_peer_sync_def)
next
  case False
  obtain v w where f: "b1_distq_ts_force_sync (clock (peers h p)) to = (v, w)" by (meson surj_pair)
  let ?h2 = "(upd_peer p (\<lambda>q. q\<lparr>clock := v\<rparr>) (upd_peer p (\<lambda>q. q\<lparr>local := to\<rparr>) h))
              \<lparr>warnings := warnings h + w\<rparr>"
  from assms(1) False f have "scan_rounds p (Some to) ?h2 = Some h'"
    by (simp add: b1_distq_peer_sync_def Let_def)
  from scan_rounds_committed [OF this, of t] assms(2) show ?thesis by simp
qed

lemma peek_front_committed:
  assumes "peek_front p first h = Some (r, h')"
    and "b1_distq_ts_committed (tx_timestamp (txs h t))"
  shows "tx_timestamp (txs h' t) = tx_timestamp (txs h t)"
  using assms sync_committed [of p _ h _ t]
  by (auto simp: peek_front_def split: if_splits option.splits)

lemma peek_committed:
  assumes "b1_distq_peer_peek p h = Some (r, h')"
    and "b1_distq_ts_committed (tx_timestamp (txs h t))"
  shows "tx_timestamp (txs h' t) = tx_timestamp (txs h t)"
proof (cases "queue_ready_first (peers h p)")
  case (Some first)
  with assms show ?thesis by (simp add: b1_distq_peer_peek_def peek_front_committed)
next
  case None
  with assms(1) obtain h1 where 1: "scan_rounds p None h = Some h1"
    by (auto simp: b1_distq_peer_peek_def b1_distq_peer_prefetch_def split: option.splits)
  have a: "tx_timestamp (txs h1 t) = tx_timestamp (txs h t)"
    by (rule scan_rounds_committed [OF 1 assms(2)])
  show ?thesis
  proof (cases "queue_ready_first (peers h1 p)")
    case None
    with assms(1) \<open>queue_ready_first (peers h p) = None\<close> 1 a show ?thesis
      by (auto simp: b1_distq_peer_peek_def b1_distq_peer_prefetch_def)
  next
    case (Some first)
    with assms(1) \<open>queue_ready_first (peers h p) = None\<close> 1
    have "peek_front p first h1 = Some (r, h')"
      by (auto simp: b1_distq_peer_peek_def b1_distq_peer_prefetch_def)
    from peek_front_committed [OF this, of t] a assms(2) show ?thesis by simp
  qed
qed

lemma pop_txs: "b1_distq_peer_pop p n h = Some h' \<Longrightarrow> txs h' = txs h"
  by (auto simp: b1_distq_peer_pop_def b1_distq_peer_pop_ready_def
      split: option.splits if_splits)

lemma queue_committed:
  "b1_distq_ts_committed (tx_timestamp (txs h t)) \<Longrightarrow>
   tx_timestamp (txs (b1_distq_node_queue n tx dest h) t) = tx_timestamp (txs h t)"
  using force_sync_committed [of "tx_timestamp (txs h t)" "clock (peers h dest)"]
  by (auto simp: b1_distq_node_queue_def Let_def warn_on_def refcount_dec_and_test_def
      split: prod.splits)

lemma node_commit_txs: "txs (b1_distq_node_commit n dest h) = txs h"
  by (simp add: b1_distq_node_commit_def Let_def split: option.splits prod.splits)

lemma step_committed:
  assumes "step x h = Some h'"
    and "b1_distq_ts_committed (tx_timestamp (txs h t))"
    and "\<forall>s. x \<noteq> TxCommit t s"
  shows "tx_timestamp (txs h' t) = tx_timestamp (txs h t)"
proof (cases x)
  case (Queue n tx dest)
  with assms show ?thesis by (auto simp: queue_committed)
next
  case (Commit n dest)
  with assms show ?thesis by (auto simp: node_commit_txs)
next
  case (TxCommit tx s)
  with assms show ?thesis by (auto simp: tx_commit_ts)
next
  case (Peek p)
  with assms show ?thesis by (auto simp: peek_committed)
next
  case (Pop p n)
  with assms show ?thesis by (auto simp: pop_txs)
next
  case (Finalize p)
  with assms show ?thesis by (auto simp: finalize_frame)
next
  case (NodeFinalize n)
  with assms show ?thesis by (auto simp: b1_distq_node_finalize_def)
next
  case (NodeClaim n)
  with assms show ?thesis by (auto simp: b1_distq_node_claim_def)
next
  case (TxClaim tx)
  with assms show ?thesis by (auto simp: b1_distq_tx_claim_def)
qed

text \<open>
  C3. Once the timestamp of a transaction is committed (odd), no sequence of engine
  operations changes it, provided \<open>b1_distq_tx_commit\<close> is not invoked on that transaction
  again; in particular the forced and the tentative synchronisation leave a committed
  value as it is.
\<close>

theorem commit_finality:
  assumes "run xs h = Some h'"
    and "b1_distq_ts_committed (tx_timestamp (txs h t))"
    and "\<forall>s. TxCommit t s \<notin> set xs"
  shows "tx_timestamp (txs h' t) = tx_timestamp (txs h t)
     \<and> fst (b1_distq_ts_force_sync (tx_timestamp (txs h t)) to) = tx_timestamp (txs h t)
     \<and> fst (b1_distq_ts_try_sync (tx_timestamp (txs h t)) to) = tx_timestamp (txs h t)"
proof -
  have "tx_timestamp (txs h' t) = tx_timestamp (txs h t)"
    using assms
  proof (induction xs arbitrary: h)
    case Nil
    then show ?case by simp
  next
    case (Cons x xs)
    from Cons.prems(1) obtain h1 where s: "step x h = Some h1" and r: "run xs h1 = Some h'"
      by (auto split: option.splits)
    have e: "tx_timestamp (txs h1 t) = tx_timestamp (txs h t)"
      using step_committed [OF s Cons.prems(2)] Cons.prems(3) by auto
    from Cons.IH [OF r] e Cons.prems show ?case by simp
  qed
  with assms(2) show ?thesis by (simp add: force_sync_committed try_sync_committed)
qed

section \<open>The unit-test scenarios, evaluated\<close>

lemmas eval_defs =
  b1_distq_node_init_def b1_distq_tx_init_def b1_distq_peer_init_def
  b1_distq_node_claim_def b1_distq_tx_claim_def
  b1_distq_node_queue_def b1_distq_node_commit_def b1_distq_tx_commit_def
  b1_distq_ts_force_sync_def b1_distq_ts_try_sync_def b1_distq_ts_committed_def
  b1_distq_peer_peek_def peek_front_def b1_distq_peer_prefetch_def b1_distq_peer_sync_def
  b1_distq_peer_poll_def
  scan_rounds_def scan_queue.simps resolve_ts_def promote_def b1_distq_peer_push_ready_def
  read_slot_def write_slot_def b1_distq_peer_pop_def b1_distq_peer_pop_ready_def
  b1_distq_node_compare_def Let_def upd_node_def upd_tx_def upd_peer_def warn_on_def
  refcount_dec_and_test_def refcount_inc_def REFCOUNT_SATURATED_def

lemma isolated_peek:
  "\<exists>g. b1_distq_peer_peek p (isolated_sent sender p tx n h) = Some (Some n, g)
       \<and> n_committed (peers g p) = 1 \<and> queue_ready_first (peers g p) = Some n
       \<and> queue_ready_last (peers g p) = Some n"
  by (simp add: isolated_sent_def isolated_start_def eval_defs)

text \<open>
  C5. From freshly initialised (and claimed) objects, queue, transaction commit and node
  commit make \<open>poll\<close> true and \<open>peek\<close> return the node; after \<open>pop\<close> of the node,
  \<open>poll\<close> is false and the commit counter is back at zero.
\<close>

theorem round_trip:
  "b1_distq_peer_poll p (isolated_sent sender p tx n h)
   \<and> map_option fst (b1_distq_peer_peek p (isolated_sent sender p tx n h)) = Some (Some n)
   \<and> map_option (\<lambda>g. (b1_distq_peer_poll p g, n_committed (peers g p)))
        (b1_distq_peer_pop p n (snd (the (b1_distq_peer_peek p (isolated_sent sender p tx n h)))))
      = Some (False, 0)"
proof -
  obtain g where g: "b1_distq_peer_peek p (isolated_sent sender p tx n h) = Some (Some n, g)"
    "n_committed (peers g p) = 1" "queue_ready_first (peers g p) = Some n"
    "queue_ready_last (peers g p) = Some n"
    using isolated_peek by blast
  have "b1_distq_peer_poll p (isolated_sent sender p tx n h)"
    by (simp add: isolated_sent_def isolated_start_def eval_defs)
  moreover have "map_option (\<lambda>g. (b1_distq_peer_poll p g, n_committed (peers g p)))
        (b1_distq_peer_pop p n g) = Some (False, 0)"
    using g(2-4) by (simp add: eval_defs)
  ultimately show ?thesis using g(1) by simp
qed

text \<open>
  C1. Both nodes are queued on the peer before either transaction commits. After the
  first transaction and its node are committed, the second transaction is still at 0;
  \<open>peek\<close> returns the first node and raises the second, tentative transaction to 2,
  with the first at 1 and the peer's clock at 2. After the second transaction and its node
  are committed, it is at 3 and the clock at 4, and the receiver gets the first node, then
  the second, then nothing.
\<close>

lemma contested_commit1_view:
  assumes "n1 \<noteq> n2" and "tx1 \<noteq> tx2"
  shows "peers (contested_commit1 p tx1 tx2 n1 n2 h) p =
           \<lparr>clock = 2, local = 0, n_committed = 1, queue_incoming = NPtr n2,
            queue_busy = NTail, queue_ready = [], queue_ready_first = None,
            queue_ready_last = None\<rparr>"
    and "txs (contested_commit1 p tx1 tx2 n1 n2 h) tx1 = \<lparr>tx_n_refs = 2, tx_timestamp = 1\<rparr>"
    and "txs (contested_commit1 p tx1 tx2 n1 n2 h) tx2 = \<lparr>tx_n_refs = 2, tx_timestamp = 0\<rparr>"
    and "nodes (contested_commit1 p tx1 tx2 n1 n2 h) n1 =
           \<lparr>node_n_refs = 2, userdata = 0, node_timestamp = 0, node_tx = Some tx1,
            next_queue = NTail, rb_ready = False\<rparr>"
    and "nodes (contested_commit1 p tx1 tx2 n1 n2 h) n2 =
           \<lparr>node_n_refs = 2, userdata = 0, node_timestamp = 0, node_tx = Some tx2,
            next_queue = NPtr n1, rb_ready = False\<rparr>"
  using assms
  by (simp_all add: contested_commit1_def contested_queued_def contested_start_def eval_defs)

lemma contested_peek1:
  assumes "n1 \<noteq> n2" and "tx1 \<noteq> tx2"
    and "peers g p =
           \<lparr>clock = 2, local = 0, n_committed = 1, queue_incoming = NPtr n2,
            queue_busy = NTail, queue_ready = [], queue_ready_first = None,
            queue_ready_last = None\<rparr>"
    and "txs g tx1 = \<lparr>tx_n_refs = 2, tx_timestamp = 1\<rparr>"
    and "txs g tx2 = \<lparr>tx_n_refs = 2, tx_timestamp = 0\<rparr>"
    and "nodes g n1 =
           \<lparr>node_n_refs = 2, userdata = 0, node_timestamp = 0, node_tx = Some tx1,
            next_queue = NTail, rb_ready = False\<rparr>"
    and "nodes g n2 =
           \<lparr>node_n_refs = 2, userdata = 0, node_timestamp = 0, node_tx = Some tx2,
            next_queue = NPtr n1, rb_ready = False\<rparr>"
  shows "\<exists>g'. b1_distq_peer_peek p g = Some (Some n1, g')
     \<and> peers g' p =
           \<lparr>clock = 2, local = 2, n_committed = 1, queue_incoming = NTail,
            queue_busy = NPtr n2, queue_ready = [n1], queue_ready_first = Some n1,
            queue_ready_last = Some n1\<rparr>
     \<and> txs g' tx1 = \<lparr>tx_n_refs = 2, tx_timestamp = 1\<rparr>
     \<and> txs g' tx2 = \<lparr>tx_n_refs = 2, tx_timestamp = 2\<rparr>
     \<and> nodes g' n1 =
           \<lparr>node_n_refs = 2, userdata = 0, node_timestamp = 1, node_tx = Some tx1,
            next_queue = NNull, rb_ready = True\<rparr>
     \<and> nodes g' n2 =
           \<lparr>node_n_refs = 2, userdata = 0, node_timestamp = 0, node_tx = Some tx2,
            next_queue = NTail, rb_ready = False\<rparr>"
  using assms by (simp add: eval_defs)

lemma contested_receive:
  assumes "n1 \<noteq> n2" and "tx1 \<noteq> tx2"
    and "peers g p =
           \<lparr>clock = 4, local = 2, n_committed = 2, queue_incoming = NTail,
            queue_busy = NPtr n2, queue_ready = [n1], queue_ready_first = Some n1,
            queue_ready_last = Some n1\<rparr>"
    and "txs g tx1 = \<lparr>tx_n_refs = 2, tx_timestamp = 1\<rparr>"
    and "txs g tx2 = \<lparr>tx_n_refs = 2, tx_timestamp = 3\<rparr>"
    and "nodes g n1 =
           \<lparr>node_n_refs = 2, userdata = 0, node_timestamp = 1, node_tx = Some tx1,
            next_queue = NNull, rb_ready = True\<rparr>"
    and "nodes g n2 =
           \<lparr>node_n_refs = 2, userdata = 0, node_timestamp = 0, node_tx = Some tx2,
            next_queue = NTail, rb_ready = False\<rparr>"
  shows "receive_two p g = Some (Some n1, Some n2, None)"
  using assms by (simp add: receive_two_def eval_defs)

theorem contested_unicast:
  assumes "n1 \<noteq> n2" and "tx1 \<noteq> tx2"
  shows "tx_timestamp (txs (contested_commit1 p tx1 tx2 n1 n2 h) tx2) = 0
     \<and> map_option fst (b1_distq_peer_peek p (contested_commit1 p tx1 tx2 n1 n2 h)) = Some (Some n1)
     \<and> tx_timestamp (txs (contested_resolved p tx1 tx2 n1 n2 h) tx1) = 1
     \<and> tx_timestamp (txs (contested_resolved p tx1 tx2 n1 n2 h) tx2) = 2
     \<and> clock (peers (contested_resolved p tx1 tx2 n1 n2 h) p) = 2
     \<and> tx_timestamp (txs (contested_commit2 p tx1 tx2 n1 n2 h) tx2) = 3
     \<and> clock (peers (contested_commit2 p tx1 tx2 n1 n2 h) p) = 4
     \<and> receive_two p (contested_commit2 p tx1 tx2 n1 n2 h) = Some (Some n1, Some n2, None)"
proof -
  note v1 = contested_commit1_view [OF assms, of p h]
  from contested_peek1 [OF assms v1] obtain g' where
    pk: "b1_distq_peer_peek p (contested_commit1 p tx1 tx2 n1 n2 h) = Some (Some n1, g')"
    and v2: "peers g' p =
           \<lparr>clock = 2, local = 2, n_committed = 1, queue_incoming = NTail,
            queue_busy = NPtr n2, queue_ready = [n1], queue_ready_first = Some n1,
            queue_ready_last = Some n1\<rparr>"
      "txs g' tx1 = \<lparr>tx_n_refs = 2, tx_timestamp = 1\<rparr>"
      "txs g' tx2 = \<lparr>tx_n_refs = 2, tx_timestamp = 2\<rparr>"
      "nodes g' n1 =
           \<lparr>node_n_refs = 2, userdata = 0, node_timestamp = 1, node_tx = Some tx1,
            next_queue = NNull, rb_ready = True\<rparr>"
      "nodes g' n2 =
           \<lparr>node_n_refs = 2, userdata = 0, node_timestamp = 0, node_tx = Some tx2,
            next_queue = NTail, rb_ready = False\<rparr>"
    by blast
  have r: "contested_resolved p tx1 tx2 n1 n2 h = g'"
    by (simp add: contested_resolved_def pk)
  let ?c = "b1_distq_node_commit n2 p (b1_distq_tx_commit tx2 p g')"
  have c: "contested_commit2 p tx1 tx2 n1 n2 h = ?c"
    by (simp add: contested_commit2_def r)
  have v3: "peers ?c p =
           \<lparr>clock = 4, local = 2, n_committed = 2, queue_incoming = NTail,
            queue_busy = NPtr n2, queue_ready = [n1], queue_ready_first = Some n1,
            queue_ready_last = Some n1\<rparr>"
      "txs ?c tx1 = \<lparr>tx_n_refs = 2, tx_timestamp = 1\<rparr>"
      "txs ?c tx2 = \<lparr>tx_n_refs = 2, tx_timestamp = 3\<rparr>"
      "nodes ?c n1 =
           \<lparr>node_n_refs = 2, userdata = 0, node_timestamp = 1, node_tx = Some tx1,
            next_queue = NNull, rb_ready = True\<rparr>"
      "nodes ?c n2 =
           \<lparr>node_n_refs = 2, userdata = 0, node_timestamp = 0, node_tx = Some tx2,
            next_queue = NTail, rb_ready = False\<rparr>"
    using assms v2 by (simp_all add: eval_defs)
  have "receive_two p ?c = Some (Some n1, Some n2, None)"
    by (rule contested_receive [OF assms v3])
  with v1 v2 v3 pk show ?thesis by (simp add: r c)
qed

theorem contested_unicast_witness:
  "(1::nat) \<noteq> 2
     \<and> map_option fst (b1_distq_peer_peek 0 (contested_commit1 0 1 2 1 2 fresh_heap)) = Some (Some 1)
     \<and> tx_timestamp (txs (contested_resolved 0 1 2 1 2 fresh_heap) 2) = 2
     \<and> clock (peers (contested_commit2 0 1 2 1 2 fresh_heap) 0) = 4
     \<and> receive_two 0 (contested_commit2 0 1 2 1 2 fresh_heap) = Some (Some 1, Some 2, None)"
  using contested_unicast [of 1 2 1 2 0 fresh_heap] by simp

theorem commit_finality_witness:
  "b1_distq_ts_committed (tx_timestamp (txs (contested_commit1 0 1 2 1 2 fresh_heap) 1))
   \<and> run [Peek 0, TxCommit 2 0, Commit 2 0, Queue 3 1 0] (contested_commit1 0 1 2 1 2 fresh_heap) \<noteq> None
   \<and> tx_timestamp (txs (the (run [Peek 0, TxCommit 2 0, Commit 2 0, Queue 3 1 0]
         (contested_commit1 0 1 2 1 2 fresh_heap))) 1) = 1"
proof -
  have n: "(1::nat) \<noteq> 2" by simp
  note v = contested_commit1_view [OF n n, of 0 fresh_heap]
  from contested_peek1 [OF n n v] obtain g where
    g: "b1_distq_peer_peek 0 (contested_commit1 0 1 2 1 2 fresh_heap) = Some (Some 1, g)" by blast
  have r: "run [Peek 0, TxCommit 2 0, Commit 2 0, Queue 3 1 0] (contested_commit1 0 1 2 1 2 fresh_heap)
        = Some (b1_distq_node_queue 3 1 0 (b1_distq_node_commit 2 0 (b1_distq_tx_commit 2 0 g)))"
    using g by simp
  have c: "b1_distq_ts_committed (tx_timestamp (txs (contested_commit1 0 1 2 1 2 fresh_heap) 1))"
    using v by (simp add: b1_distq_ts_committed_def)
  have t: "tx_timestamp (txs (contested_commit1 0 1 2 1 2 fresh_heap) 1) = 1"
    using v by simp
  have "tx_timestamp (txs (b1_distq_node_queue 3 1 0 (b1_distq_node_commit 2 0 (b1_distq_tx_commit 2 0 g))) 1)
        = tx_timestamp (txs (contested_commit1 0 1 2 1 2 fresh_heap) 1)"
    using commit_finality [OF r c, of 0] by simp
  then show ?thesis
    unfolding r t using c unfolding t by simp
qed

section \<open>Parity and growth of the peer clocks\<close>

lemma promote_clock [simp]:
  "clock (peers (promote p sl n ts h) q) = clock (peers h q)"
  "local (peers (promote p sl n ts h) q) = local (peers h q)"
  "n_committed (peers (promote p sl n ts h) q) = n_committed (peers h q)"
  "queue_incoming (peers (promote p sl n ts h) q) = queue_incoming (peers h q)"
  by (auto simp: promote_def b1_distq_peer_push_ready_def Let_def write_slot_def split: slot.splits)

lemma promote_node_timestamp:
  "node_timestamp (nodes (promote p sl n ts h) m) =
     (if m = n then (if node_timestamp (nodes h n) \<noteq> 0 then node_timestamp (nodes h n) else ts)
      else node_timestamp (nodes h m))"
  by (auto simp: promote_def b1_distq_peer_push_ready_def Let_def write_slot_def split: slot.splits)

lemma promote_ready_last:
  "queue_ready_last (peers (promote p sl n ts h) q) = Some l \<Longrightarrow>
     l = n \<or> queue_ready_last (peers h q) = Some l"
  by (auto simp: promote_def b1_distq_peer_push_ready_def Let_def write_slot_def
      split: slot.splits if_splits)

lemma resolve_ts_frame [simp]:
  "nodes (snd (resolve_ts to tx h)) = nodes h"
  "peers (snd (resolve_ts to tx h)) = peers h"
  by (auto simp: resolve_ts_def split: option.splits prod.splits)

lemma clock_inv_resolve: "clock_inv h \<Longrightarrow> clock_inv (snd (resolve_ts to tx h))"
  by (simp add: clock_inv_def)

lemma clock_inv_promote:
  assumes "clock_inv h" and "b1_distq_ts_committed ts"
  shows "clock_inv (promote p sl n ts h)"
proof -
  have ts: "node_timestamp (nodes (promote p sl n ts h) m) = 0
        \<or> b1_distq_ts_committed (node_timestamp (nodes (promote p sl n ts h) m))" for m
    using assms by (auto simp: promote_node_timestamp clock_inv_def)
  have n: "b1_distq_ts_committed (node_timestamp (nodes (promote p sl n ts h) n))"
    using assms by (auto simp: promote_node_timestamp clock_inv_def)
  have "b1_distq_ts_committed (node_timestamp (nodes (promote p sl n ts h) l))"
    if "queue_ready_last (peers (promote p sl n ts h) q) = Some l" for q l
  proof -
    from promote_ready_last [OF that] show ?thesis
    proof
      assume "l = n" with n show ?thesis by simp
    next
      assume "queue_ready_last (peers h q) = Some l"
      with assms have "b1_distq_ts_committed (node_timestamp (nodes h l))"
        by (auto simp: clock_inv_def)
      then show ?thesis
        using assms by (auto simp: promote_node_timestamp b1_distq_ts_committed_def)
    qed
  qed
  with ts assms show ?thesis by (simp add: clock_inv_def)
qed

lemma clock_inv_scan_queue:
  "scan_queue p to sl h = Some (sl', h') \<Longrightarrow> clock_inv h \<Longrightarrow> clock_inv h'"
  by (erule scan_queue_preserves [where Q = clock_inv]) (simp_all add: clock_inv_resolve clock_inv_promote)


lemma clock_inv_frame:
  assumes "clock_inv h"
    and "\<And>p. clock (peers h' p) = clock (peers h p)"
    and "\<And>n. node_timestamp (nodes h' n) = node_timestamp (nodes h n)"
    and "\<And>p l. queue_ready_last (peers h' p) = Some l \<Longrightarrow> queue_ready_last (peers h p) = Some l"
  shows "clock_inv h'"
  using assms unfolding clock_inv_def by metis

lemma clock_inv_scan_rounds:
  assumes "scan_rounds p to h = Some h'" and "clock_inv h"
  shows "clock_inv h'"
proof -
  from assms(1) obtain sl h1 where 1: "scan_queue p to (SlotBusy p) h = Some (sl, h1)"
    by (auto simp: scan_rounds_def split: option.splits)
  let ?h3 = "write_slot sl (queue_incoming (peers h1 p)) (upd_peer p (\<lambda>q. q\<lparr>queue_incoming := NTail\<rparr>) h1)"
  from assms(1) 1 obtain sl2 where 2: "scan_queue p to sl ?h3 = Some (sl2, h')"
    by (auto simp: scan_rounds_def Let_def split: option.splits)
  have "clock_inv h1" by (rule clock_inv_scan_queue [OF 1 assms(2)])
  then have "clock_inv ?h3"
    by (rule clock_inv_frame) (auto simp: write_slot_def split: slot.splits if_splits)
  then show ?thesis by (rule clock_inv_scan_queue [OF 2])
qed

lemma force_sync_tentative:
  "\<not> b1_distq_ts_committed v \<Longrightarrow> \<not> b1_distq_ts_committed to \<Longrightarrow>
   \<not> b1_distq_ts_committed (fst (b1_distq_ts_force_sync v to))"
  by (simp add: b1_distq_ts_force_sync_def Let_def)

lemma force_sync_mono: "sint v \<le> sint (fst (b1_distq_ts_force_sync v to))"
  by (simp add: b1_distq_ts_force_sync_def Let_def)

lemma clock_inv_sync:
  assumes "b1_distq_peer_sync p to h = Some h'" and "clock_inv h"
  shows "clock_inv h'"
proof (cases "b1_distq_ts_committed to \<or> sint to \<le> sint (local (peers h p))")
  case True
  with assms show ?thesis by (auto simp: b1_distq_peer_sync_def clock_inv_def)
next
  case False
  obtain v w where f: "b1_distq_ts_force_sync (clock (peers h p)) to = (v, w)" by (meson surj_pair)
  let ?h2 = "(upd_peer p (\<lambda>q. q\<lparr>clock := v\<rparr>) (upd_peer p (\<lambda>q. q\<lparr>local := to\<rparr>) h))
              \<lparr>warnings := warnings h + w\<rparr>"
  from assms(1) False f have r: "scan_rounds p (Some to) ?h2 = Some h'"
    by (simp add: b1_distq_peer_sync_def Let_def)
  have "\<not> b1_distq_ts_committed v"
    using force_sync_tentative [of "clock (peers h p)" to] f False assms(2)
    by (simp add: clock_inv_def)
  with assms(2) have "clock_inv ?h2" by (simp add: clock_inv_def)
  then show ?thesis by (rule clock_inv_scan_rounds [OF r])
qed

lemma clock_inv_peek_front:
  assumes "peek_front p first h = Some (r, h')" and "clock_inv h"
  shows "clock_inv h'"
proof (cases "sint (node_timestamp (nodes h first)) \<ge> sint (local (peers h p))")
  case False
  with assms show ?thesis by (simp add: peek_front_def)
next
  case True
  with assms(1) obtain l h1 where l: "queue_ready_last (peers h p) = Some l"
    and s: "b1_distq_peer_sync p (node_timestamp (nodes h l) + 1) h = Some h1"
    and h': "h' = warn_on (queue_ready_first (peers h1 p) = None) h1"
    by (auto simp: peek_front_def split: option.splits)
  have "clock_inv h1" by (rule clock_inv_sync [OF s assms(2)])
  then show ?thesis unfolding h' by (rule clock_inv_frame) simp_all
qed

lemma clock_inv_peek:
  assumes "b1_distq_peer_peek p h = Some (r, h')" and "clock_inv h"
  shows "clock_inv h'"
proof (cases "queue_ready_first (peers h p)")
  case (Some first)
  with assms show ?thesis by (auto simp: b1_distq_peer_peek_def intro: clock_inv_peek_front)
next
  case None
  with assms(1) obtain h1 where 1: "scan_rounds p None h = Some h1"
    by (auto simp: b1_distq_peer_peek_def b1_distq_peer_prefetch_def split: option.splits)
  have a: "clock_inv h1" by (rule clock_inv_scan_rounds [OF 1 assms(2)])
  show ?thesis
  proof (cases "queue_ready_first (peers h1 p)")
    case None
    with assms(1) \<open>queue_ready_first (peers h p) = None\<close> 1 a show ?thesis
      by (auto simp: b1_distq_peer_peek_def b1_distq_peer_prefetch_def)
  next
    case (Some first)
    with assms(1) \<open>queue_ready_first (peers h p) = None\<close> 1
    have "peek_front p first h1 = Some (r, h')"
      by (auto simp: b1_distq_peer_peek_def b1_distq_peer_prefetch_def)
    from clock_inv_peek_front [OF this a] show ?thesis .
  qed
qed

lemma clock_inv_pop:
  assumes "b1_distq_peer_pop p n h = Some h'" and "clock_inv h"
  shows "clock_inv h'"
  using assms(2)
  apply (rule clock_inv_frame)
  using assms(1)
  by (auto simp: b1_distq_peer_pop_def b1_distq_peer_pop_ready_def
      split: option.splits if_splits)

lemma fold_detach_ready_timestamp [simp]:
  "node_timestamp (nodes (fst (fold detach_ready xs (h, l))) n) = node_timestamp (nodes h n)"
  by (induction xs arbitrary: h l) (simp_all add: detach_ready_def)

lemma finalize_clock_frame:
  assumes "b1_distq_peer_finalize p h = Some (l, h')"
  shows "(\<forall>q. clock (peers h' q) = clock (peers h q))
     \<and> (\<forall>n. node_timestamp (nodes h' n) = node_timestamp (nodes h n))
     \<and> (\<forall>q m. queue_ready_last (peers h' q) = Some m \<longrightarrow> queue_ready_last (peers h q) = Some m)"
proof (cases "queue_incoming (peers h p) = NNull")
  case True
  with assms show ?thesis by (auto simp: b1_distq_peer_finalize_def Let_def split: if_splits)
next
  case False
  let ?h1 = "upd_peer p (\<lambda>q. q\<lparr>queue_incoming := NNull\<rparr>) h"
  from False assms obtain sl where sl: "find_tail (SlotBusy p) ?h1 = Some sl"
    by (auto simp: b1_distq_peer_finalize_def Let_def split: option.splits)
  let ?h3 = "upd_peer p (\<lambda>q. q\<lparr>queue_busy := NNull\<rparr>) (write_slot sl (queue_incoming (peers h p)) ?h1)"
  let ?l2 = "queue_busy (peers (write_slot sl (queue_incoming (peers h p)) ?h1) p)"
  let ?h4 = "fst (fold detach_ready (queue_ready (peers ?h3 p)) (?h3, ?l2))"
  from assms False sl have h': "h' = upd_peer p (\<lambda>q. q\<lparr>queue_ready := [], queue_ready_first := None,
                                                    queue_ready_last := None\<rparr>) ?h4"
    by (simp add: b1_distq_peer_finalize_def Let_def split: prod.splits)
  show ?thesis unfolding h'
    by (cases sl) (auto simp: write_slot_def)
qed

lemma clock_inv_finalize:
  assumes "b1_distq_peer_finalize p h = Some (l, h')" and "clock_inv h"
  shows "clock_inv h'"
  using assms(2) finalize_clock_frame [OF assms(1)]
  by (intro clock_inv_frame [of h h']) auto

lemma clock_inv_step:
  assumes "step x h = Some h'" and "contract x h" and "clock_inv h"
  shows "clock_inv h'"
proof (cases x)
  case (Queue n tx dest)
  have "clock_inv (b1_distq_node_queue n tx dest h)"
    using assms(3)
    by (rule clock_inv_frame)
       (auto simp: b1_distq_node_queue_def Let_def refcount_dec_and_test_def split: prod.splits if_splits)
  with assms Queue show ?thesis by simp
next
  case (Commit n dest)
  with assms(2) obtain tx where tx: "node_tx (nodes h n) = Some tx"
    and c: "b1_distq_ts_committed (tx_timestamp (txs h tx))"
    by (auto split: option.splits)
  have "\<not> b1_distq_ts_committed (tx_timestamp (txs h tx) + 1)"
    using c by (simp add: committed_iff_odd)
  then have "\<not> b1_distq_ts_committed (fst (b1_distq_ts_force_sync (clock (peers h dest)) (tx_timestamp (txs h tx) + 1)))"
    using assms(3) by (intro force_sync_tentative) (auto simp: clock_inv_def)
  with assms(3) tx have "clock_inv (b1_distq_node_commit n dest h)"
    by (auto simp: clock_inv_def b1_distq_node_commit_def Let_def split: prod.splits)
  with assms Commit show ?thesis by simp
next
  case (TxCommit tx s)
  have "clock_inv (b1_distq_tx_commit tx s h)"
    using assms(3)
    by (rule clock_inv_frame) (auto simp: b1_distq_tx_commit_def Let_def split: prod.splits)
  with assms TxCommit show ?thesis by simp
next
  case (Peek p)
  with assms show ?thesis by (auto intro: clock_inv_peek)
next
  case (Pop p n)
  with assms show ?thesis by (auto intro: clock_inv_pop)
next
  case (Finalize p)
  with assms show ?thesis by (auto intro: clock_inv_finalize)
next
  case (NodeFinalize n)
  have "clock_inv (snd (b1_distq_node_finalize n h))"
    using assms(3) by (rule clock_inv_frame) (auto simp: b1_distq_node_finalize_def)
  with assms NodeFinalize show ?thesis by simp
next
  case (NodeClaim n)
  have "clock_inv (b1_distq_node_claim n h)"
    using assms(3) by (rule clock_inv_frame) (auto simp: b1_distq_node_claim_def)
  with assms NodeClaim show ?thesis by simp
next
  case (TxClaim tx)
  have "clock_inv (b1_distq_tx_claim tx h)"
    using assms(3) by (rule clock_inv_frame) (auto simp: b1_distq_tx_claim_def)
  with assms TxClaim show ?thesis by simp
qed

lemma clock_inv_run_ok:
  "run_ok xs h = Some h' \<Longrightarrow> clock_inv h \<Longrightarrow> clock_inv h'"
proof (induction xs arbitrary: h)
  case Nil
  then show ?case by simp
next
  case (Cons x xs)
  from Cons.prems(1) obtain h1 where c: "contract x h" and s: "step x h = Some h1"
    and r: "run_ok xs h1 = Some h'"
    by (auto split: if_splits option.splits)
  from Cons.IH [OF r clock_inv_step [OF s c Cons.prems(2)]] show ?case .
qed

lemma clock_inv_fresh: "clock_inv fresh_heap"
  by (simp add: clock_inv_def fresh_heap_def b1_distq_ts_committed_def)


lemma scan_queue_clock:
  assumes "scan_queue p to sl h = Some (sl', h')"
  shows "clock (peers h' q) = clock (peers h q)"
proof -
  define c where "c = clock (peers h q)"
  have "clock (peers h' q) = c"
    by (rule scan_queue_preserves [where Q = "\<lambda>g. clock (peers g q) = c", OF assms])
       (simp_all add: c_def)
  then show ?thesis by (simp add: c_def)
qed

lemma scan_rounds_clock:
  assumes "scan_rounds p to h = Some h'"
  shows "clock (peers h' q) = clock (peers h q)"
proof -
  from assms(1) obtain sl h1 where 1: "scan_queue p to (SlotBusy p) h = Some (sl, h1)"
    by (auto simp: scan_rounds_def split: option.splits)
  let ?h3 = "write_slot sl (queue_incoming (peers h1 p)) (upd_peer p (\<lambda>q. q\<lparr>queue_incoming := NTail\<rparr>) h1)"
  from assms(1) 1 obtain sl2 where 2: "scan_queue p to sl ?h3 = Some (sl2, h')"
    by (auto simp: scan_rounds_def Let_def split: option.splits)
  have "clock (peers ?h3 q) = clock (peers h1 q)"
    by (cases sl) (auto simp: write_slot_def)
  with scan_queue_clock [OF 1, of q] scan_queue_clock [OF 2, of q] show ?thesis by simp
qed

lemma sync_clock_mono:
  assumes "b1_distq_peer_sync p to h = Some h'"
  shows "sint (clock (peers h q)) \<le> sint (clock (peers h' q))"
proof (cases "b1_distq_ts_committed to \<or> sint to \<le> sint (local (peers h p))")
  case True
  with assms show ?thesis by (auto simp: b1_distq_peer_sync_def)
next
  case False
  obtain v w where f: "b1_distq_ts_force_sync (clock (peers h p)) to = (v, w)" by (meson surj_pair)
  let ?h2 = "(upd_peer p (\<lambda>q. q\<lparr>clock := v\<rparr>) (upd_peer p (\<lambda>q. q\<lparr>local := to\<rparr>) h))
              \<lparr>warnings := warnings h + w\<rparr>"
  from assms(1) False f have r: "scan_rounds p (Some to) ?h2 = Some h'"
    by (simp add: b1_distq_peer_sync_def Let_def)
  have "sint (clock (peers h p)) \<le> sint v"
    using force_sync_mono [of "clock (peers h p)" to] f by simp
  then show ?thesis using scan_rounds_clock [OF r, of q] by simp
qed

lemma peek_front_clock_mono:
  assumes "peek_front p first h = Some (r, h')"
  shows "sint (clock (peers h q)) \<le> sint (clock (peers h' q))"
  using assms sync_clock_mono [of p _ h _ q]
  by (auto simp: peek_front_def split: if_splits option.splits)

lemma peek_clock_mono:
  assumes "b1_distq_peer_peek p h = Some (r, h')"
  shows "sint (clock (peers h q)) \<le> sint (clock (peers h' q))"
proof (cases "queue_ready_first (peers h p)")
  case (Some first)
  with assms show ?thesis by (auto simp: b1_distq_peer_peek_def intro: peek_front_clock_mono)
next
  case None
  with assms(1) obtain h1 where 1: "scan_rounds p None h = Some h1"
    by (auto simp: b1_distq_peer_peek_def b1_distq_peer_prefetch_def split: option.splits)
  note a = scan_rounds_clock [OF 1, of q]
  show ?thesis
  proof (cases "queue_ready_first (peers h1 p)")
    case None
    with assms(1) \<open>queue_ready_first (peers h p) = None\<close> 1 a show ?thesis
      by (auto simp: b1_distq_peer_peek_def b1_distq_peer_prefetch_def)
  next
    case (Some first)
    with assms(1) \<open>queue_ready_first (peers h p) = None\<close> 1
    have "peek_front p first h1 = Some (r, h')"
      by (auto simp: b1_distq_peer_peek_def b1_distq_peer_prefetch_def)
    from peek_front_clock_mono [OF this, of q] a show ?thesis by simp
  qed
qed

lemma step_clock_mono:
  assumes "step x h = Some h'"
  shows "sint (clock (peers h q)) \<le> sint (clock (peers h' q))"
proof (cases x)
  case (Queue n tx dest)
  with assms show ?thesis
    by (auto simp: b1_distq_node_queue_def Let_def refcount_dec_and_test_def split: prod.splits if_splits)
next
  case (Commit n dest)
  with assms show ?thesis
    using force_sync_mono [of "clock (peers h dest)"]
    by (auto simp: b1_distq_node_commit_def Let_def split: prod.splits option.splits)
       (metis fst_conv)
next
  case (TxCommit tx s)
  with assms show ?thesis by (auto simp: b1_distq_tx_commit_def Let_def split: prod.splits)
next
  case (Peek p)
  with assms show ?thesis by (auto intro: peek_clock_mono)
next
  case (Pop p n)
  with assms show ?thesis
    by (auto simp: b1_distq_peer_pop_def b1_distq_peer_pop_ready_def split: option.splits if_splits)
next
  case (Finalize p)
  with assms show ?thesis using finalize_clock_frame by auto
next
  case (NodeFinalize n)
  with assms show ?thesis by (auto simp: b1_distq_node_finalize_def)
next
  case (NodeClaim n)
  with assms show ?thesis by (auto simp: b1_distq_node_claim_def)
next
  case (TxClaim tx)
  with assms show ?thesis by (auto simp: b1_distq_tx_claim_def)
qed

lemma run_ok_clock_mono:
  "run_ok xs h = Some h' \<Longrightarrow> sint (clock (peers h q)) \<le> sint (clock (peers h' q))"
proof (induction xs arbitrary: h)
  case Nil
  then show ?case by simp
next
  case (Cons x xs)
  from Cons.prems(1) obtain h1 where s: "step x h = Some h1" and r: "run_ok xs h1 = Some h'"
    by (auto split: if_splits option.splits)
  from Cons.IH [OF r] step_clock_mono [OF s, of q] show ?case by simp
qed

text \<open>
  C9. A peer's clock starts at 0. Along every sequence of engine operations that
  respects the contracts, from the freshly initialised store, the clock of every peer is
  tentative (even) and never decreases (as a signed 64-bit value); the value a contractual
  commit synchronises the clock to, the committed timestamp of the node's transaction
  plus one, is even, and so is the target of the synchronisation in \<open>peek\<close>, the
  timestamp of the last ready node plus one.
\<close>

theorem clock_even_monotone:
  assumes "run_ok xs fresh_heap = Some h" and "run_ok ys h = Some h'"
  shows "clock (peers fresh_heap p) = 0
     \<and> clock (peers (b1_distq_peer_init p g) p) = 0
     \<and> \<not> b1_distq_ts_committed (clock (peers h p))
     \<and> \<not> b1_distq_ts_committed (clock (peers h' p))
     \<and> sint (clock (peers h p)) \<le> sint (clock (peers h' p))
     \<and> (\<forall>n tx. contract (Commit n p) h \<and> node_tx (nodes h n) = Some tx \<longrightarrow>
            \<not> b1_distq_ts_committed (tx_timestamp (txs h tx) + 1))
     \<and> (\<forall>l. queue_ready_last (peers h p) = Some l \<longrightarrow>
            \<not> b1_distq_ts_committed (node_timestamp (nodes h l) + 1))"
proof -
  have i: "clock_inv h" by (rule clock_inv_run_ok [OF assms(1) clock_inv_fresh])
  have i': "clock_inv h'" by (rule clock_inv_run_ok [OF assms(2) i])
  have "\<not> b1_distq_ts_committed (node_timestamp (nodes h l) + 1)"
    if "queue_ready_last (peers h p) = Some l" for l
    using i that by (auto simp: clock_inv_def committed_iff_odd)
  moreover have "\<not> b1_distq_ts_committed (tx_timestamp (txs h tx) + 1)"
    if "contract (Commit n p) h" "node_tx (nodes h n) = Some tx" for n tx
    using that by (auto simp: committed_iff_odd)
  ultimately show ?thesis
    using i i' run_ok_clock_mono [OF assms(2), of p]
    by (auto simp: clock_inv_def fresh_heap_def b1_distq_peer_init_def)
qed

lemma contested_run:
  "\<exists>g. run_ok [TxClaim 1, TxClaim 2, NodeClaim 1, NodeClaim 2, Queue 1 1 0, Queue 2 2 0,
              TxCommit 1 0, Commit 1 0, Peek 0] fresh_heap = Some g
       \<and> peers g 0 =
           \<lparr>clock = 2, local = 2, n_committed = 1, queue_incoming = NTail,
            queue_busy = NPtr 2, queue_ready = [1], queue_ready_first = Some 1,
            queue_ready_last = Some 1\<rparr>
       \<and> txs g 1 = \<lparr>tx_n_refs = 2, tx_timestamp = 1\<rparr>
       \<and> txs g 2 = \<lparr>tx_n_refs = 2, tx_timestamp = 2\<rparr>
       \<and> nodes g 1 =
           \<lparr>node_n_refs = 2, userdata = 0, node_timestamp = 1, node_tx = Some 1,
            next_queue = NNull, rb_ready = True\<rparr>
       \<and> nodes g 2 =
           \<lparr>node_n_refs = 2, userdata = 0, node_timestamp = 0, node_tx = Some 2,
            next_queue = NTail, rb_ready = False\<rparr>"
  by (simp add: fresh_heap_def eval_defs)

theorem clock_even_monotone_witness:
  "run_ok [TxClaim 1, TxClaim 2, NodeClaim 1, NodeClaim 2, Queue 1 1 0, Queue 2 2 0,
           TxCommit 1 0, Commit 1 0, Peek 0] fresh_heap \<noteq> None
   \<and> run_ok [TxCommit 2 0, Commit 2 0]
        (the (run_ok [TxClaim 1, TxClaim 2, NodeClaim 1, NodeClaim 2, Queue 1 1 0, Queue 2 2 0,
                      TxCommit 1 0, Commit 1 0, Peek 0] fresh_heap)) \<noteq> None
   \<and> clock (peers (the (run_ok [TxClaim 1, TxClaim 2, NodeClaim 1, NodeClaim 2, Queue 1 1 0,
                      Queue 2 2 0, TxCommit 1 0, Commit 1 0, Peek 0] fresh_heap)) 0) = 2
   \<and> sint (2 :: s64) \<le> sint (clock (peers (the (run_ok [TxCommit 2 0, Commit 2 0]
        (the (run_ok [TxClaim 1, TxClaim 2, NodeClaim 1, NodeClaim 2, Queue 1 1 0, Queue 2 2 0,
                      TxCommit 1 0, Commit 1 0, Peek 0] fresh_heap)))) 0))"
proof -
  from contested_run obtain g where
    r: "run_ok [TxClaim 1, TxClaim 2, NodeClaim 1, NodeClaim 2, Queue 1 1 0, Queue 2 2 0,
              TxCommit 1 0, Commit 1 0, Peek 0] fresh_heap = Some g"
    and v: "peers g 0 =
           \<lparr>clock = 2, local = 2, n_committed = 1, queue_incoming = NTail,
            queue_busy = NPtr 2, queue_ready = [1], queue_ready_first = Some 1,
            queue_ready_last = Some 1\<rparr>"
      "txs g 2 = \<lparr>tx_n_refs = 2, tx_timestamp = 2\<rparr>"
      "nodes g 2 =
           \<lparr>node_n_refs = 2, userdata = 0, node_timestamp = 0, node_tx = Some 2,
            next_queue = NTail, rb_ready = False\<rparr>"
    by blast
  have r2: "run_ok [TxCommit 2 0, Commit 2 0] g
     = Some (b1_distq_node_commit 2 0 (b1_distq_tx_commit 2 0 g))"
    using v by (simp add: eval_defs)
  from clock_even_monotone [OF r r2, of 0] show ?thesis
    unfolding r option.sel r2 using v by simp
qed

section \<open>Paths and chains\<close>

lemma path_append: "path h p (as @ bs) q \<longleftrightarrow> (\<exists>r. path h p as r \<and> path h r bs q)"
  by (induction as arbitrary: p) auto

lemma path_frame:
  "(\<And>a. a \<in> set as \<Longrightarrow> next_queue (nodes h' a) = next_queue (nodes h a)) \<Longrightarrow>
   path h' p as q = path h p as q"
  by (induction as arbitrary: p) auto

lemma chain_frame:
  "(\<And>a. a \<in> set as \<Longrightarrow> next_queue (nodes h' a) = next_queue (nodes h a)) \<Longrightarrow>
   chain h' p as = chain h p as"
  unfolding chain_def by (rule path_frame)

lemma chain_Nil [simp]: "chain h p [] \<longleftrightarrow> p = NTail"
  by (simp add: chain_def)

lemma chain_Cons [simp]:
  "chain h p (a # as) \<longleftrightarrow> p = NPtr a \<and> chain h (next_queue (nodes h a)) as"
  by (simp add: chain_def)

lemma chain_not_null: "chain h p as \<Longrightarrow> p \<noteq> NNull"
  by (cases as) auto

lemma chain_next_not_null: "chain h p as \<Longrightarrow> a \<in> set as \<Longrightarrow> next_queue (nodes h a) \<noteq> NNull"
  by (induction as arbitrary: p) (auto dest: chain_not_null)

lemma chain_unique: "chain h p as \<Longrightarrow> chain h p bs \<Longrightarrow> as = bs"
proof (induction as arbitrary: p bs)
  case Nil
  then show ?case by (cases bs) auto
next
  case (Cons a as)
  then show ?case by (cases bs) auto
qed

lemma path_in_chain: "path h p as q \<Longrightarrow> chain h p bs \<Longrightarrow> set as \<subseteq> set bs"
proof (induction as arbitrary: p bs)
  case Nil
  then show ?case by simp
next
  case (Cons a as)
  then show ?case by (cases bs) auto
qed

lemma path_null: "path h NNull as q \<Longrightarrow> as = []"
  by (cases as) auto

lemma chain_path_tail: "path h p as q \<Longrightarrow> chain h q bs \<Longrightarrow> chain h p (as @ bs)"
  by (simp add: chain_def path_append) blast

lemma linked_lists:
  assumes "peer_lists h p is bs" and "linked h p c n"
  shows "(c = Incoming \<longrightarrow> n \<in> set is) \<and> (c = Busy \<longrightarrow> n \<in> set bs)
       \<and> (c = Ready \<longrightarrow> n \<in> set (queue_ready (peers h p)))"
proof (cases "queue_incoming (peers h p) = NNull")
  case True
  with assms show ?thesis
    by (cases c) (auto simp: peer_lists_def linked_def dest: path_null)
next
  case False
  with assms show ?thesis
    by (cases c) (auto simp: peer_lists_def linked_def dest: path_in_chain)
qed

lemma queue_inv_single_membership:
  assumes "queue_inv h"
  shows "single_membership h"
proof -
  from assms obtain inc bsy where ok: "lists_ok h inc bsy" by (auto simp: queue_inv_def)
  have pl: "peer_lists h p (inc p) (bsy p)" for p using ok by (simp add: lists_ok_def)
  have d: "distinct (members h inc bsy p)" for p using ok by (simp add: lists_ok_def separate_def)
  have s: "p \<noteq> q \<Longrightarrow> set (members h inc bsy p) \<inter> set (members h inc bsy q) = {}" for p q
    using ok by (simp add: lists_ok_def separate_def)
  have m: "n \<in> set (members h inc bsy p)" if "linked h p c n" for p c n
    using linked_lists [OF pl that] by (cases c) (auto simp: members_def)
  show ?thesis unfolding single_membership_def
  proof (intro allI impI)
    fix n p c p' c'
    assume a: "linked h p c n" and b: "linked h p' c' n"
    have pp: "p = p'" using m [OF a] m [OF b] s [of p p'] by auto
    have "c = c'"
      using linked_lists [OF pl a] linked_lists [OF pl b [folded pp]] d [of p]
      by (cases c; cases c') (auto simp: members_def)
    with pp show "p = p' \<and> c = c'" by simp
  qed
qed

lemma lists_ok_fresh: "lists_ok fresh_heap (\<lambda>_. []) (\<lambda>_. [])"
  by (simp add: lists_ok_def peer_lists_def separate_def members_def ready_ok_def cache_ok_def
      fresh_heap_def)

section \<open>The effect of promoting a node\<close>

lemma promote_next_queue:
  "next_queue (nodes (promote p sl node ts h) a) =
     (if a = node then NNull
      else if sl = SlotNext a then next_queue (nodes h node)
      else next_queue (nodes h a))"
  by (cases sl) (auto simp: promote_def b1_distq_peer_push_ready_def Let_def write_slot_def)

lemma promote_node_tx [simp]:
  "node_tx (nodes (promote p sl node ts h) a) = node_tx (nodes h a)"
  by (cases sl) (auto simp: promote_def b1_distq_peer_push_ready_def Let_def write_slot_def)

lemma promote_rb_ready:
  "rb_ready (nodes (promote p sl node ts h) a) \<longleftrightarrow> a = node \<or> rb_ready (nodes h a)"
  by (cases sl) (auto simp: promote_def b1_distq_peer_push_ready_def Let_def write_slot_def)

lemma promote_queue_busy:
  "queue_busy (peers (promote p sl node ts h) q) =
     (if sl = SlotBusy q then next_queue (nodes h node) else queue_busy (peers h q))"
  by (cases sl) (auto simp: promote_def b1_distq_peer_push_ready_def Let_def write_slot_def)

lemma promote_queue_ready_other:
  "q \<noteq> p \<Longrightarrow> queue_ready (peers (promote p sl node ts h) q) = queue_ready (peers h q)"
  by (cases sl) (auto simp: promote_def b1_distq_peer_push_ready_def Let_def write_slot_def)

lemma promote_queue_first_last_other:
  "q \<noteq> p \<Longrightarrow> queue_ready_first (peers (promote p sl node ts h) q) = queue_ready_first (peers h q)"
  "q \<noteq> p \<Longrightarrow> queue_ready_last (peers (promote p sl node ts h) q) = queue_ready_last (peers h q)"
  by (cases sl; auto simp: promote_def b1_distq_peer_push_ready_def Let_def write_slot_def)+

lemma compare_nonneg: "b1_distq_node_compare h a e \<ge> 0 \<Longrightarrow>
    sint (node_timestamp (nodes h e)) \<le> sint (node_timestamp (nodes h a))"
  by (auto simp: b1_distq_node_compare_def split: if_splits)

lemma compare_neg: "\<not> b1_distq_node_compare h a e \<ge> 0 \<Longrightarrow>
    sint (node_timestamp (nodes h a)) \<le> sint (node_timestamp (nodes h e))"
  by (auto simp: b1_distq_node_compare_def split: if_splits)

lemma push_ready_lists:
  "\<exists>lo hi. queue_ready (peers h p) = lo @ hi
     \<and> queue_ready (peers (b1_distq_peer_push_ready p node h) p) = lo @ node # hi
     \<and> queue_ready_first (peers (b1_distq_peer_push_ready p node h) p) =
          (if lo = [] then Some node else queue_ready_first (peers h p))
     \<and> queue_ready_last (peers (b1_distq_peer_push_ready p node h) p) =
          (if hi = [] then Some node else queue_ready_last (peers h p))
     \<and> (\<forall>e \<in> set lo. sint (node_timestamp (nodes h e)) \<le> sint (node_timestamp (nodes h node)))
     \<and> (hi \<noteq> [] \<longrightarrow> sint (node_timestamp (nodes h node)) \<le> sint (node_timestamp (nodes h (hd hi))))"
proof -
  let ?P = "\<lambda>e. b1_distq_node_compare h node e \<ge> 0"
  let ?rs = "queue_ready (peers h p)"
  let ?lo = "takeWhile ?P ?rs" and ?hi = "dropWhile ?P ?rs"
  have "?rs = ?lo @ ?hi" by simp
  moreover have "queue_ready (peers (b1_distq_peer_push_ready p node h) p) = ?lo @ node # ?hi"
    by (simp add: b1_distq_peer_push_ready_def Let_def)
  moreover have "queue_ready_first (peers (b1_distq_peer_push_ready p node h) p) =
          (if ?lo = [] then Some node else queue_ready_first (peers h p))"
    by (simp add: b1_distq_peer_push_ready_def Let_def)
  moreover have "queue_ready_last (peers (b1_distq_peer_push_ready p node h) p) =
          (if ?hi = [] then Some node else queue_ready_last (peers h p))"
    by (simp add: b1_distq_peer_push_ready_def Let_def)
  moreover have "\<forall>e \<in> set ?lo. sint (node_timestamp (nodes h e)) \<le> sint (node_timestamp (nodes h node))"
    by (auto dest!: set_takeWhileD intro: compare_nonneg)
  moreover have "?hi \<noteq> [] \<longrightarrow> sint (node_timestamp (nodes h node)) \<le> sint (node_timestamp (nodes h (hd ?hi)))"
  proof
    assume "?hi \<noteq> []"
    then have "\<not> ?P (hd ?hi)" by (rule hd_dropWhile)
    then show "sint (node_timestamp (nodes h node)) \<le> sint (node_timestamp (nodes h (hd ?hi)))"
      by (rule compare_neg)
  qed
  ultimately show ?thesis by blast
qed

lemma push_ready_node_timestamp [simp]:
  "node_timestamp (nodes (b1_distq_peer_push_ready p node h) a) = node_timestamp (nodes h a)"
  by (simp add: b1_distq_peer_push_ready_def Let_def)

lemma promote_lists:
  "\<exists>lo hi. queue_ready (peers h p) = lo @ hi
     \<and> queue_ready (peers (promote p sl node ts h) p) = lo @ node # hi
     \<and> queue_ready_first (peers (promote p sl node ts h) p) =
          (if lo = [] then Some node else queue_ready_first (peers h p))
     \<and> queue_ready_last (peers (promote p sl node ts h) p) =
          (if hi = [] then Some node else queue_ready_last (peers h p))
     \<and> (\<forall>e \<in> set lo. sint (node_timestamp (nodes (promote p sl node ts h) e))
            \<le> sint (node_timestamp (nodes (promote p sl node ts h) node)))
     \<and> (hi \<noteq> [] \<longrightarrow> sint (node_timestamp (nodes (promote p sl node ts h) node))
            \<le> sint (node_timestamp (nodes (promote p sl node ts h) (hd hi))))"
proof -
  let ?h3 = "upd_node node (\<lambda>x. x\<lparr>node_timestamp :=
                 (if node_timestamp x \<noteq> 0 then node_timestamp x else ts)\<rparr>)
              (upd_node node (\<lambda>x. x\<lparr>next_queue := NNull\<rparr>)
                (write_slot sl (next_queue (nodes h node)) h))"
  have p: "promote p sl node ts h = b1_distq_peer_push_ready p node ?h3"
    by (simp add: promote_def Let_def)
  have r: "queue_ready (peers ?h3 p) = queue_ready (peers h p)"
    "queue_ready_first (peers ?h3 p) = queue_ready_first (peers h p)"
    "queue_ready_last (peers ?h3 p) = queue_ready_last (peers h p)"
    by (cases sl; auto simp: write_slot_def)+
  from push_ready_lists [of ?h3 p node] show ?thesis
    unfolding p r push_ready_node_timestamp .
qed

lemma promote_queue_ready:
  "\<exists>lo hi. queue_ready (peers h p) = lo @ hi
     \<and> queue_ready (peers (promote p sl node ts h) p) = lo @ node # hi"
  using promote_lists [of h p sl node ts] by blast

lemma promote_ready_set:
  "set (queue_ready (peers (promote p sl node ts h) q)) =
     (if q = p then insert node (set (queue_ready (peers h p))) else set (queue_ready (peers h q)))"
proof (cases "q = p")
  case True
  obtain lo hi where "queue_ready (peers h p) = lo @ hi"
    "queue_ready (peers (promote p sl node ts h) p) = lo @ node # hi"
    using promote_queue_ready by blast
  with True show ?thesis by auto
next
  case False
  then show ?thesis by (simp add: promote_queue_ready_other)
qed


section \<open>The walk over the busy list keeps the structure\<close>

lemma peer_lists_cong:
  assumes "queue_incoming (peers h' q) = queue_incoming (peers h q)"
    and "queue_busy (peers h' q) = queue_busy (peers h q)"
    and "queue_ready (peers h' q) = queue_ready (peers h q)"
    and "\<And>a. a \<in> set is \<union> set bs \<Longrightarrow> next_queue (nodes h' a) = next_queue (nodes h a)"
  shows "peer_lists h' q is bs = peer_lists h q is bs"
proof -
  have "chain h' x is = chain h x is" for x using assms(4) by (intro chain_frame) auto
  moreover have "chain h' x bs = chain h x bs" for x using assms(4) by (intro chain_frame) auto
  ultimately show ?thesis by (simp add: peer_lists_def assms(1-3))
qed

lemma scan_ok_rest:
  assumes "scan_ok h p inc bsy done rest sl" and "read_slot h sl = NPtr node"
  shows "\<exists>rest'. rest = node # rest' \<and> chain h (next_queue (nodes h node)) rest'"
  using assms by (cases rest) (auto simp: scan_ok_def)

lemma slot_after_eq: "slot_after p done = SlotNext a \<longleftrightarrow> done \<noteq> [] \<and> last done = a"
  "slot_after p done = SlotBusy q \<longleftrightarrow> done = [] \<and> q = p"
  by (auto simp: slot_after_def)

lemma distinct_last_butlast: "distinct xs \<Longrightarrow> xs \<noteq> [] \<Longrightarrow> last xs \<notin> set (butlast xs)"
  by (induction xs rule: rev_induct) auto

lemma scan_ok_promote:
  assumes ok: "scan_ok h p inc bsy done rest sl"
    and rd: "read_slot h sl = NPtr node"
    and tx: "node_tx (nodes h node) \<noteq> None"
  shows "scan_ok (promote p sl node ts h) p inc (bsy(p := done @ tl rest)) done (tl rest) sl"
proof -
  let ?h = "promote p sl node ts h"
  let ?bsy = "bsy(p := done @ tl rest)"
  let ?rdy = "queue_ready (peers h p)"
  from scan_ok_rest [OF ok rd] obtain rest' where rest: "rest = node # rest'"
    and ch: "chain h (next_queue (nodes h node)) rest'" by blast
  have sl: "sl = slot_after p done" using ok unfolding scan_ok_def by blast
  have bp: "bsy p = done @ node # rest'" using ok rest unfolding scan_ok_def by blast
  have sep: "separate h inc bsy" and rok: "ready_ok h" using ok unfolding scan_ok_def by blast+
  have "distinct (members h inc bsy p)" using sep by (simp add: separate_def)
  then have dist: "distinct (inc p @ done @ node # rest' @ ?rdy)"
    by (simp add: members_def bp)
  have disj: "set (members h inc bsy q) \<inter> set (members h inc bsy p) = {}" if "q \<noteq> p" for q
    using sep that by (simp add: separate_def)
  have mp: "set (members h inc bsy p) = set (inc p) \<union> set done \<union> {node} \<union> set rest' \<union> set ?rdy"
    by (auto simp: members_def bp)
  have dd: "distinct done" using dist by simp
  have node_new: "node \<notin> set (inc p) \<union> set done \<union> set rest' \<union> set ?rdy"
    using dist by auto
  have last_new: "last done \<notin> set (inc p) \<union> set (butlast done) \<union> set rest' \<union> set ?rdy \<union> {node}"
    if "done \<noteq> []"
  proof -
    have l: "last done \<in> set done" using that by simp
    have "last done \<notin> set (butlast done)" using dd that by (rule distinct_last_butlast)
    moreover have "last done \<notin> set (inc p) \<union> set rest' \<union> set ?rdy \<union> {node}"
      using dist l by auto
    ultimately show ?thesis by simp
  qed
  \<comment> \<open>the links that are not written\<close>
  have fr: "next_queue (nodes ?h a) = next_queue (nodes h a)"
    if "a \<noteq> node" "done = [] \<or> a \<noteq> last done" for a
    using that sl by (auto simp: promote_next_queue slot_after_eq)
  have frp: "next_queue (nodes ?h a) = next_queue (nodes h a)"
    if "a \<in> set (inc p) \<union> set (butlast done) \<union> set rest' \<union> set ?rdy" for a
  proof (rule fr)
    show "a \<noteq> node" using that node_new by (auto dest: in_set_butlastD)
    show "done = [] \<or> a \<noteq> last done" using that last_new by auto
  qed
  have frq: "next_queue (nodes ?h a) = next_queue (nodes h a)"
    if "q \<noteq> p" "a \<in> set (members h inc bsy q)" for a q
  proof (rule fr)
    from disj [OF that(1)] that(2) have n: "a \<notin> set (members h inc bsy p)" by auto
    then show "a \<noteq> node" using mp by auto
    show "done = [] \<or> a \<noteq> last done"
    proof (cases "done = []")
      case False
      then have "last done \<in> set done" by simp
      with n mp show ?thesis by auto
    qed simp
  qed
  have 1: "peer_lists ?h q (inc q) (?bsy q)" if "q \<noteq> p" for q
  proof -
    have "peer_lists ?h q (inc q) (bsy q) = peer_lists h q (inc q) (bsy q)"
    proof (rule peer_lists_cong)
      show "queue_incoming (peers ?h q) = queue_incoming (peers h q)" by simp
      show "queue_busy (peers ?h q) = queue_busy (peers h q)"
        using that sl by (auto simp: promote_queue_busy slot_after_eq)
      show "queue_ready (peers ?h q) = queue_ready (peers h q)"
        using that by (simp add: promote_queue_ready_other)
      show "next_queue (nodes ?h a) = next_queue (nodes h a)" if "a \<in> set (inc q) \<union> set (bsy q)" for a
        using frq [OF \<open>q \<noteq> p\<close>, of a] that by (auto simp: members_def)
    qed
    moreover have "peer_lists h q (inc q) (bsy q)" using ok that unfolding scan_ok_def by blast
    ultimately show ?thesis using that by simp
  qed
  have 2: "chain ?h (queue_incoming (peers ?h p)) (inc p)"
  proof -
    have "chain ?h (queue_incoming (peers h p)) (inc p) = chain h (queue_incoming (peers h p)) (inc p)"
      by (rule chain_frame) (rule frp, simp)
    moreover have "chain h (queue_incoming (peers h p)) (inc p)" using ok unfolding scan_ok_def by blast
    ultimately show ?thesis by simp
  qed
  have rs: "read_slot ?h sl = next_queue (nodes h node)"
  proof (cases "done = []")
    case True
    then show ?thesis using sl by (simp add: slot_after_def read_slot_def promote_queue_busy)
  next
    case False
    then have "last done \<noteq> node" using last_new by auto
    then show ?thesis using sl False by (simp add: slot_after_def read_slot_def promote_next_queue)
  qed
  have 3: "path ?h (queue_busy (peers ?h p)) done (read_slot ?h sl)"
  proof (cases "done = []")
    case True
    then show ?thesis using sl rs by (simp add: slot_after_def read_slot_def)
  next
    case False
    then obtain d0 m where d: "done = d0 @ [m]" by (metis append_butlast_last_id)
    have slp: "sl = SlotNext m" using sl d by (simp add: slot_after_def)
    have "path h (queue_busy (peers h p)) done (read_slot h sl)" using ok unfolding scan_ok_def by blast
    then have pb: "path h (queue_busy (peers h p)) d0 (NPtr m)"
      unfolding d by (auto simp: path_append)
    have "path ?h (queue_busy (peers h p)) d0 (NPtr m) = path h (queue_busy (peers h p)) d0 (NPtr m)"
      by (rule path_frame) (rule frp, simp add: d)
    with pb have "path ?h (queue_busy (peers h p)) d0 (NPtr m)" by simp
    moreover have "queue_busy (peers ?h p) = queue_busy (peers h p)"
      using slp by (simp add: promote_queue_busy)
    moreover have "next_queue (nodes ?h m) = read_slot ?h sl"
      using slp by (simp add: read_slot_def)
    ultimately show ?thesis unfolding d by (auto simp: path_append)
  qed
  have 4: "chain ?h (read_slot ?h sl) (tl rest)"
  proof -
    have "chain ?h (next_queue (nodes h node)) rest' = chain h (next_queue (nodes h node)) rest'"
      by (rule chain_frame) (rule frp, simp)
    with ch rs rest show ?thesis by simp
  qed
  have mem_q: "members ?h inc ?bsy q = members h inc bsy q" if "q \<noteq> p" for q
    using that by (simp add: members_def promote_queue_ready_other)
  obtain lo hi where lh: "?rdy = lo @ hi" "queue_ready (peers ?h p) = lo @ node # hi"
    using promote_queue_ready by blast
  have mem_p: "members ?h inc ?bsy p = inc p @ done @ rest' @ lo @ node # hi"
    using rest lh by (simp add: members_def)
  have set_p: "set (members ?h inc ?bsy p) = set (members h inc bsy p)"
    unfolding mem_p mp lh by auto
  have dist_p: "distinct (members ?h inc ?bsy p)"
    unfolding mem_p using dist unfolding lh(1) by auto
  have s: "set (members ?h inc ?bsy x) = set (members h inc bsy x)" for x
    using set_p mem_q [of x] by (cases "x = p") simp_all
  have 5: "separate ?h inc ?bsy"
    unfolding separate_def
  proof (intro conjI allI impI)
    fix q show "distinct (members ?h inc ?bsy q)"
    proof (cases "q = p")
      case True then show ?thesis using dist_p by simp
    next
      case False
      then show ?thesis using mem_q [of q] sep by (simp add: separate_def)
    qed
  next
    fix q r :: nat assume "q \<noteq> r"
    then show "set (members ?h inc ?bsy q) \<inter> set (members ?h inc ?bsy r) = {}"
      unfolding s using sep by (simp add: separate_def)
  qed
  have 6: "ready_ok ?h"
    unfolding ready_ok_def
  proof (intro allI ballI)
    fix q n assume n: "n \<in> set (queue_ready (peers ?h q))"
    show "node_tx (nodes ?h n) \<noteq> None \<and> rb_ready (nodes ?h n) \<and> next_queue (nodes ?h n) = NNull"
    proof (cases "n = node")
      case True
      then show ?thesis using tx by (simp add: promote_rb_ready promote_next_queue)
    next
      case False
      with n have old: "n \<in> set (queue_ready (peers h q))"
        by (auto simp: promote_ready_set split: if_splits)
      then have o: "node_tx (nodes h n) \<noteq> None \<and> rb_ready (nodes h n) \<and> next_queue (nodes h n) = NNull"
        using rok by (auto simp: ready_ok_def)
      have "next_queue (nodes ?h n) = next_queue (nodes h n)"
      proof (cases "q = p")
        case True
        with old show ?thesis by (intro frp) simp
      next
        case False
        with old show ?thesis by (intro frq [of q]) (simp_all add: members_def)
      qed
      with o show ?thesis by (simp add: promote_rb_ready)
    qed
  qed
  have "queue_incoming (peers h p) \<noteq> NNull" using ok unfolding scan_ok_def by blast
  then have 7: "queue_incoming (peers ?h p) \<noteq> NNull" by simp
  have cok: "cache_ok h" using ok unfolding scan_ok_def by blast
  have 8: "cache_ok ?h"
    unfolding cache_ok_def
  proof (intro allI)
    fix q
    show "queue_ready_first (peers ?h q) =
            (if queue_ready (peers ?h q) = [] then None else Some (hd (queue_ready (peers ?h q))))
        \<and> queue_ready_last (peers ?h q) =
            (if queue_ready (peers ?h q) = [] then None else Some (last (queue_ready (peers ?h q))))"
    proof (cases "q = p")
      case False
      then show ?thesis
        using cok by (simp add: promote_queue_first_last_other promote_queue_ready_other cache_ok_def)
    next
      case True
      obtain lo' hi' where l: "?rdy = lo' @ hi'"
        "queue_ready (peers ?h p) = lo' @ node # hi'"
        "queue_ready_first (peers ?h p) = (if lo' = [] then Some node else queue_ready_first (peers h p))"
        "queue_ready_last (peers ?h p) = (if hi' = [] then Some node else queue_ready_last (peers h p))"
        using promote_lists [of h p sl node ts] by blast
      have c: "queue_ready_first (peers h p) = (if ?rdy = [] then None else Some (hd ?rdy))"
        "queue_ready_last (peers h p) = (if ?rdy = [] then None else Some (last ?rdy))"
        using cok by (simp_all add: cache_ok_def)
      show ?thesis unfolding True l(2,3,4) c l(1) by (cases lo'; cases hi'; simp)
    qed
  qed
  show ?thesis
    unfolding scan_ok_def
    using 1 2 3 4 5 6 7 8 sl rest by simp
qed

lemma path_heap_cong: "nodes h' = nodes h \<Longrightarrow> path h' p as q = path h p as q"
  by (rule path_frame) simp

lemma heap_cong:
  assumes "nodes h' = nodes h" and "peers h' = peers h"
  shows "path h' = path h" and "chain h' = chain h" and "read_slot h' = read_slot h"
    and "peer_lists h' = peer_lists h" and "members h' = members h"
    and "separate h' = separate h" and "ready_ok h' = ready_ok h"
    and "cache_ok h' = cache_ok h"
proof -
  show p: "path h' = path h" by (intro ext) (rule path_heap_cong [OF assms(1)])
  show c: "chain h' = chain h" by (intro ext) (simp add: chain_def p)
  show "read_slot h' = read_slot h" by (intro ext) (simp add: read_slot_def assms split: slot.splits)
  show "peer_lists h' = peer_lists h" by (intro ext) (simp add: peer_lists_def assms c)
  show m: "members h' = members h" by (intro ext) (simp add: members_def assms)
  show "separate h' = separate h" by (intro ext) (simp add: separate_def m)
  show "ready_ok h' = ready_ok h" by (simp add: ready_ok_def assms)
  show "cache_ok h' = cache_ok h" by (simp add: cache_ok_def assms)
qed

lemma scan_ok_heap_cong:
  assumes "nodes h' = nodes h" and "peers h' = peers h"
  shows "scan_ok h' p inc bsy done rest sl = scan_ok h p inc bsy done rest sl"
  unfolding scan_ok_def heap_cong [OF assms] assms ..

lemma lists_ok_heap_cong:
  assumes "nodes h' = nodes h" and "peers h' = peers h"
  shows "lists_ok h' inc bsy = lists_ok h inc bsy"
  unfolding lists_ok_def heap_cong [OF assms] ..

lemma scan_ok_skip:
  assumes ok: "scan_ok h p inc bsy done rest sl"
    and rd: "read_slot h sl = NPtr node"
  shows "scan_ok h p inc bsy (done @ [node]) (tl rest) (SlotNext node)"
proof -
  from scan_ok_rest [OF ok rd] obtain rest' where rest: "rest = node # rest'"
    and ch: "chain h (next_queue (nodes h node)) rest'" by blast
  have pa: "path h (queue_busy (peers h p)) done (read_slot h sl)"
    using ok unfolding scan_ok_def by blast
  have "path h (queue_busy (peers h p)) (done @ [node]) (next_queue (nodes h node))"
    using pa rd by (auto simp: path_append)
  moreover have "bsy p = (done @ [node]) @ tl rest" using ok rest unfolding scan_ok_def by simp
  moreover have "SlotNext node = slot_after p (done @ [node])" by (simp add: slot_after_def)
  moreover have "read_slot h (SlotNext node) = next_queue (nodes h node)" by (simp add: read_slot_def)
  ultimately show ?thesis using ok ch rest unfolding scan_ok_def by simp
qed

lemma resolve_ts_read_slot [simp]: "read_slot (snd (resolve_ts to tx h)) sl = read_slot h sl"
  by (simp add: read_slot_def split: slot.splits)

lemma scan_queue_scan_ok:
  assumes run: "scan_queue p to sl h = Some (sl', h')"
    and ok: "scan_ok h p inc bsy done rest sl"
  shows "\<exists>bsy' done'. scan_ok h' p inc bsy' done' [] sl' \<and> (\<forall>q. q \<noteq> p \<longrightarrow> bsy' q = bsy q)"
proof -
  let ?I = "\<lambda>sl g. \<exists>bsy' done' rest'. scan_ok g p inc bsy' done' rest' sl \<and> (\<forall>q. q \<noteq> p \<longrightarrow> bsy' q = bsy q)"
  have "?I sl' h' \<and> read_slot h' sl' = NTail"
  proof (rule scan_queue_rule [where I = ?I, OF run], goal_cases)
    case 1
    show ?case using ok by blast
  next
    case (2 sl g node tx ts g1)
    then obtain b d r where s: "scan_ok g p inc b d r sl" and e: "\<forall>q. q \<noteq> p \<longrightarrow> b q = bsy q" by blast
    have g1: "g1 = snd (resolve_ts to tx g)" using 2(4) by simp
    have s1: "scan_ok g1 p inc b d r sl"
      using s unfolding g1 by (subst scan_ok_heap_cong) simp_all
    have r1: "read_slot g1 sl = NPtr node" using 2(2) unfolding g1 by simp
    have t1: "node_tx (nodes g1 node) \<noteq> None" using 2(3) unfolding g1 by simp
    from scan_ok_promote [OF s1 r1 t1, of ts] e show ?case
      by (intro exI [of _ "b(p := d @ tl r)"] exI [of _ d] exI [of _ "tl r"]) simp
  next
    case (3 sl g node tx ts g1)
    then obtain b d r where s: "scan_ok g p inc b d r sl" and e: "\<forall>q. q \<noteq> p \<longrightarrow> b q = bsy q" by blast
    have g1: "g1 = snd (resolve_ts to tx g)" using 3(4) by simp
    have "scan_ok g p inc b (d @ [node]) (tl r) (SlotNext node)"
      by (rule scan_ok_skip [OF s 3(2)])
    then have "scan_ok g1 p inc b (d @ [node]) (tl r) (SlotNext node)"
      unfolding g1 by (subst scan_ok_heap_cong) simp_all
    with e show ?case by blast
  qed
  then obtain b d r where s: "scan_ok h' p inc b d r sl'" and e: "\<forall>q. q \<noteq> p \<longrightarrow> b q = bsy q"
    and t: "read_slot h' sl' = NTail" by blast
  have "chain h' (read_slot h' sl') r" using s unfolding scan_ok_def by blast
  with t have "r = []" by (cases r) auto
  with s e show ?thesis by blast
qed

lemma lists_ok_scan_start:
  assumes "lists_ok h inc bsy" and "queue_incoming (peers h p) \<noteq> NNull"
  shows "scan_ok h p inc bsy [] (bsy p) (SlotBusy p)"
  using assms
  by (auto simp: lists_ok_def scan_ok_def peer_lists_def slot_after_def read_slot_def)

lemma scan_ok_finish:
  assumes "scan_ok h p inc bsy done [] sl"
  shows "lists_ok h inc bsy"
proof -
  have "path h (queue_busy (peers h p)) done (read_slot h sl)" "chain h (read_slot h sl) []"
    "bsy p = done @ []"
    using assms unfolding scan_ok_def by blast+
  then have "chain h (queue_busy (peers h p)) (bsy p)" by (simp add: chain_def)
  moreover have "queue_incoming (peers h p) \<noteq> NNull" "chain h (queue_incoming (peers h p)) (inc p)"
    using assms unfolding scan_ok_def by blast+
  ultimately have "peer_lists h p (inc p) (bsy p)" by (simp add: peer_lists_def)
  moreover have "\<forall>q. q \<noteq> p \<longrightarrow> peer_lists h q (inc q) (bsy q)" "separate h inc bsy" "ready_ok h"
    "cache_ok h"
    using assms unfolding scan_ok_def by blast+
  ultimately show ?thesis unfolding lists_ok_def by metis
qed

lemma scan_ok_fetch:
  assumes ok: "scan_ok h p inc bsy done [] sl"
  shows "scan_ok (write_slot sl (queue_incoming (peers h p))
                   (upd_peer p (\<lambda>q. q\<lparr>queue_incoming := NTail\<rparr>) h))
           p (inc(p := [])) (bsy(p := done @ inc p)) done (inc p) sl"
proof -
  let ?f = "queue_incoming (peers h p)"
  let ?h = "write_slot sl ?f (upd_peer p (\<lambda>q. q\<lparr>queue_incoming := NTail\<rparr>) h)"
  let ?inc = "inc(p := [])" and ?bsy = "bsy(p := done @ inc p)"
  let ?rdy = "queue_ready (peers h p)"
  have sl: "sl = slot_after p done" using ok unfolding scan_ok_def by blast
  have bp: "bsy p = done" using ok unfolding scan_ok_def by simp
  have sep: "separate h inc bsy" and rok: "ready_ok h" using ok unfolding scan_ok_def by blast+
  have chi: "chain h ?f (inc p)" using ok unfolding scan_ok_def by blast
  have pa: "path h (queue_busy (peers h p)) done (read_slot h sl)" using ok unfolding scan_ok_def by blast
  have "distinct (members h inc bsy p)" using sep by (simp add: separate_def)
  then have dist: "distinct (inc p @ done @ ?rdy)" by (simp add: members_def bp)
  have disj: "set (members h inc bsy q) \<inter> set (members h inc bsy p) = {}" if "q \<noteq> p" for q
    using sep that by (simp add: separate_def)
  have mp: "set (members h inc bsy p) = set (inc p) \<union> set done \<union> set ?rdy"
    by (auto simp: members_def bp)
  have dd: "distinct done" using dist by simp
  have fr: "next_queue (nodes ?h a) = next_queue (nodes h a)" if "done = [] \<or> a \<noteq> last done" for a
    using that sl by (auto simp: write_slot_def slot_after_def)
  have last_new: "last done \<notin> set (inc p) \<union> set (butlast done) \<union> set ?rdy" if "done \<noteq> []"
  proof -
    have l: "last done \<in> set done" using that by simp
    have "last done \<notin> set (butlast done)" using dd that by (rule distinct_last_butlast)
    moreover have "last done \<notin> set (inc p) \<union> set ?rdy" using dist l by auto
    ultimately show ?thesis by simp
  qed
  have frp: "next_queue (nodes ?h a) = next_queue (nodes h a)"
    if "a \<in> set (inc p) \<union> set (butlast done) \<union> set ?rdy" for a
    by (rule fr) (use that last_new in auto)
  have frq: "next_queue (nodes ?h a) = next_queue (nodes h a)"
    if "q \<noteq> p" "a \<in> set (members h inc bsy q)" for a q
  proof (rule fr)
    from disj [OF that(1)] that(2) have n: "a \<notin> set (members h inc bsy p)" by auto
    show "done = [] \<or> a \<noteq> last done"
    proof (cases "done = []")
      case False
      then have "last done \<in> set done" by simp
      with n mp show ?thesis by auto
    qed simp
  qed
  have pq: "queue_incoming (peers ?h q) = queue_incoming (peers h q)"
      "queue_busy (peers ?h q) = queue_busy (peers h q)" if "q \<noteq> p" for q
    using that sl by (auto simp: write_slot_def slot_after_def)
  have rdy: "queue_ready (peers ?h q) = queue_ready (peers h q)" for q
    using sl by (auto simp: write_slot_def slot_after_def)
  have 1: "peer_lists ?h q (?inc q) (?bsy q)" if "q \<noteq> p" for q
  proof -
    have "peer_lists ?h q (inc q) (bsy q) = peer_lists h q (inc q) (bsy q)"
      by (rule peer_lists_cong) (use pq [OF that] rdy frq [OF that] in \<open>auto simp: members_def\<close>)
    moreover have "peer_lists h q (inc q) (bsy q)" using ok that unfolding scan_ok_def by blast
    ultimately show ?thesis using that by simp
  qed
  have 2: "queue_incoming (peers ?h p) = NTail"
    using sl by (auto simp: write_slot_def slot_after_def)
  have rs: "read_slot ?h sl = ?f"
    using sl by (auto simp: write_slot_def slot_after_def read_slot_def)
  have 3: "path ?h (queue_busy (peers ?h p)) done (read_slot ?h sl)"
  proof (cases "done = []")
    case True
    then show ?thesis using sl rs by (simp add: slot_after_def read_slot_def)
  next
    case False
    then obtain d0 m where d: "done = d0 @ [m]" by (metis append_butlast_last_id)
    have slp: "sl = SlotNext m" using sl d by (simp add: slot_after_def)
    from pa have pb: "path h (queue_busy (peers h p)) d0 (NPtr m)"
      unfolding d by (auto simp: path_append)
    have "path ?h (queue_busy (peers h p)) d0 (NPtr m) = path h (queue_busy (peers h p)) d0 (NPtr m)"
      by (rule path_frame) (rule frp, simp add: d)
    with pb have "path ?h (queue_busy (peers h p)) d0 (NPtr m)" by simp
    moreover have "queue_busy (peers ?h p) = queue_busy (peers h p)"
      using slp by (simp add: write_slot_def)
    moreover have "next_queue (nodes ?h m) = read_slot ?h sl"
      using slp by (simp add: read_slot_def)
    ultimately show ?thesis unfolding d by (auto simp: path_append)
  qed
  have 4: "chain ?h (read_slot ?h sl) (inc p)"
  proof -
    have "chain ?h ?f (inc p) = chain h ?f (inc p)"
      by (rule chain_frame) (rule frp, simp)
    with chi rs show ?thesis by simp
  qed
  have mem_q: "members ?h ?inc ?bsy q = members h inc bsy q" if "q \<noteq> p" for q
    using that by (simp add: members_def rdy)
  have mem_p: "members ?h ?inc ?bsy p = done @ inc p @ ?rdy"
    by (simp add: members_def rdy)
  have s: "set (members ?h ?inc ?bsy x) = set (members h inc bsy x)" for x
    using mem_p mp mem_q [of x] by (cases "x = p") auto
  have 5: "separate ?h ?inc ?bsy"
    unfolding separate_def
  proof (intro conjI allI impI)
    fix q show "distinct (members ?h ?inc ?bsy q)"
    proof (cases "q = p")
      case True then show ?thesis using dist by (auto simp: mem_p)
    next
      case False
      then show ?thesis using mem_q [of q] sep by (simp add: separate_def)
    qed
  next
    fix q r :: nat assume "q \<noteq> r"
    then show "set (members ?h ?inc ?bsy q) \<inter> set (members ?h ?inc ?bsy r) = {}"
      unfolding s using sep by (simp add: separate_def)
  qed
  have 6: "ready_ok ?h"
    unfolding ready_ok_def
  proof (intro allI ballI)
    fix q n assume "n \<in> set (queue_ready (peers ?h q))"
    then have old: "n \<in> set (queue_ready (peers h q))" by (simp add: rdy)
    then have o: "node_tx (nodes h n) \<noteq> None \<and> rb_ready (nodes h n) \<and> next_queue (nodes h n) = NNull"
      using rok by (auto simp: ready_ok_def)
    have "next_queue (nodes ?h n) = next_queue (nodes h n)"
    proof (cases "q = p")
      case True
      with old show ?thesis by (intro frp) simp
    next
      case False
      with old show ?thesis by (intro frq [of q]) (simp_all add: members_def)
    qed
    moreover have "node_tx (nodes ?h n) = node_tx (nodes h n)" "rb_ready (nodes ?h n) = rb_ready (nodes h n)"
      by (cases sl; simp add: write_slot_def)+
    ultimately show "node_tx (nodes ?h n) \<noteq> None \<and> rb_ready (nodes ?h n) \<and> next_queue (nodes ?h n) = NNull"
      using o by simp
  qed
  have "cache_ok h" using ok unfolding scan_ok_def by blast
  then have 7: "cache_ok ?h"
    using sl by (auto simp: cache_ok_def write_slot_def slot_after_def)
  show ?thesis
    unfolding scan_ok_def
    using 1 2 3 4 5 6 7 sl by simp
qed

lemma scan_queue_null:
  "read_slot h sl = NNull \<Longrightarrow> scan_queue p to sl h = None"
  by (subst scan_queue.simps) simp

lemma scan_rounds_lists_ok:
  assumes run: "scan_rounds p to h = Some h'" and ok: "lists_ok h inc bsy"
  shows "\<exists>inc' bsy'. lists_ok h' inc' bsy'"
proof -
  from run obtain sl h1 where 1: "scan_queue p to (SlotBusy p) h = Some (sl, h1)"
    by (auto simp: scan_rounds_def split: option.splits)
  let ?h3 = "write_slot sl (queue_incoming (peers h1 p)) (upd_peer p (\<lambda>q. q\<lparr>queue_incoming := NTail\<rparr>) h1)"
  from run 1 obtain sl2 where 2: "scan_queue p to sl ?h3 = Some (sl2, h')"
    by (auto simp: scan_rounds_def Let_def split: option.splits)
  have open_p: "queue_incoming (peers h p) \<noteq> NNull"
  proof
    assume "queue_incoming (peers h p) = NNull"
    with ok have "queue_busy (peers h p) = NNull" by (auto simp: lists_ok_def peer_lists_def)
    then have "scan_queue p to (SlotBusy p) h = None"
      by (intro scan_queue_null) (simp add: read_slot_def)
    with 1 show False by simp
  qed
  from scan_queue_scan_ok [OF 1 lists_ok_scan_start [OF ok open_p]]
  obtain b1 d1 where s1: "scan_ok h1 p inc b1 d1 [] sl" by blast
  from scan_queue_scan_ok [OF 2 scan_ok_fetch [OF s1]]
  obtain b2 d2 where "scan_ok h' p (inc(p := [])) b2 d2 [] sl2" by blast
  from scan_ok_finish [OF this] show ?thesis by blast
qed

section \<open>Operations that keep the lists\<close>

lemma lists_ok_frame:
  assumes ok: "lists_ok h inc bsy"
    and inc: "\<And>q. queue_incoming (peers h' q) = queue_incoming (peers h q)"
    and bsy: "\<And>q. queue_busy (peers h' q) = queue_busy (peers h q)"
    and rdy: "\<And>q. queue_ready (peers h' q) = queue_ready (peers h q)
               \<or> queue_ready (peers h' q) = []
               \<or> (\<exists>n. queue_ready (peers h' q) = remove1 n (queue_ready (peers h q)))"
    and lnk: "\<And>q a. a \<in> set (inc q) \<union> set (bsy q) \<Longrightarrow>
               next_queue (nodes h' a) = next_queue (nodes h a)"
    and rn: "\<And>q n. n \<in> set (queue_ready (peers h' q)) \<Longrightarrow> n \<in> set (queue_ready (peers h q)) \<Longrightarrow>
               node_tx (nodes h' n) \<noteq> None \<and> rb_ready (nodes h' n) \<and> next_queue (nodes h' n) = NNull"
    and cache: "cache_ok h'"
  shows "lists_ok h' inc bsy"
proof -
  have sub: "set (queue_ready (peers h' q)) \<subseteq> set (queue_ready (peers h q))" for q
  proof -
    from rdy [of q] consider "queue_ready (peers h' q) = queue_ready (peers h q)"
      | "queue_ready (peers h' q) = []"
      | n where "queue_ready (peers h' q) = remove1 n (queue_ready (peers h q))" by blast
    then show ?thesis
    proof cases
      case 3
      then show ?thesis by (simp add: set_remove1_subset)
    qed simp_all
  qed
  have dst: "distinct (xs @ queue_ready (peers h' q))" if "distinct (xs @ queue_ready (peers h q))" for q xs
  proof -
    have "distinct (queue_ready (peers h' q))"
      using rdy [of q] that by (auto simp: distinct_remove1)
    with that sub [of q] show ?thesis by auto
  qed
  have emp: "queue_ready (peers h q) = [] \<Longrightarrow> queue_ready (peers h' q) = []" for q
    using rdy [of q] by auto
  have ch: "chain h' x (inc q) = chain h x (inc q)" "chain h' x (bsy q) = chain h x (bsy q)" for x q
  proof -
    show "chain h' x (inc q) = chain h x (inc q)"
      by (rule chain_frame) (rule lnk [of _ q], simp)
    show "chain h' x (bsy q) = chain h x (bsy q)"
      by (rule chain_frame) (rule lnk [of _ q], simp)
  qed
  have 1: "peer_lists h' q (inc q) (bsy q)" for q
  proof -
    have "peer_lists h q (inc q) (bsy q)" using ok by (simp add: lists_ok_def)
    then show ?thesis unfolding peer_lists_def inc bsy ch using emp [of q] by auto
  qed
  have sep: "separate h inc bsy" using ok by (simp add: lists_ok_def)
  have ms: "set (members h' inc bsy q) \<subseteq> set (members h inc bsy q)" for q
    using sub [of q] by (auto simp: members_def)
  have 2: "separate h' inc bsy"
    unfolding separate_def
  proof (intro conjI allI impI)
    fix q
    have "distinct ((inc q @ bsy q) @ queue_ready (peers h q))"
      using sep by (simp add: separate_def members_def)
    from dst [OF this] show "distinct (members h' inc bsy q)" by (simp add: members_def)
  next
    fix q r :: nat assume "q \<noteq> r"
    then have "set (members h inc bsy q) \<inter> set (members h inc bsy r) = {}"
      using sep by (simp add: separate_def)
    with ms [of q] ms [of r] show "set (members h' inc bsy q) \<inter> set (members h' inc bsy r) = {}"
      by blast
  qed
  have 3: "ready_ok h'"
    unfolding ready_ok_def using rn sub by blast
  show ?thesis unfolding lists_ok_def using 1 2 3 cache by simp
qed

text \<open>A change of fields that the lists do not depend on.\<close>

lemma lists_ok_fields:
  assumes ok: "lists_ok h inc bsy"
    and "\<And>q. queue_incoming (peers h' q) = queue_incoming (peers h q)"
    and "\<And>q. queue_busy (peers h' q) = queue_busy (peers h q)"
    and r: "\<And>q. queue_ready (peers h' q) = queue_ready (peers h q)"
    and f: "\<And>q. queue_ready_first (peers h' q) = queue_ready_first (peers h q)"
    and l: "\<And>q. queue_ready_last (peers h' q) = queue_ready_last (peers h q)"
    and n: "\<And>q a. a \<in> set (members h inc bsy q) \<Longrightarrow>
               next_queue (nodes h' a) = next_queue (nodes h a) \<and>
               (node_tx (nodes h a) \<noteq> None \<longrightarrow> node_tx (nodes h' a) \<noteq> None) \<and>
               (rb_ready (nodes h a) \<longrightarrow> rb_ready (nodes h' a))"
  shows "lists_ok h' inc bsy"
proof (rule lists_ok_frame [OF ok])
  show "cache_ok h'" using ok by (simp add: lists_ok_def cache_ok_def r f l)
next
  fix q m assume "m \<in> set (queue_ready (peers h' q))" and m: "m \<in> set (queue_ready (peers h q))"
  then have "node_tx (nodes h m) \<noteq> None \<and> rb_ready (nodes h m) \<and> next_queue (nodes h m) = NNull"
    using ok by (auto simp: lists_ok_def ready_ok_def)
  moreover have "m \<in> set (members h inc bsy q)" using m by (simp add: members_def)
  ultimately show "node_tx (nodes h' m) \<noteq> None \<and> rb_ready (nodes h' m) \<and> next_queue (nodes h' m) = NNull"
    using n [of m q] by auto
next
  fix q a assume "a \<in> set (inc q) \<union> set (bsy q)"
  then have "a \<in> set (members h inc bsy q)" by (auto simp: members_def)
  then show "next_queue (nodes h' a) = next_queue (nodes h a)" using n by blast
qed (simp_all add: assms)

lemma members_linked:
  assumes ok: "lists_ok h inc bsy" and n: "n \<in> set (members h inc bsy q)"
  shows "next_queue (nodes h n) \<noteq> NNull \<or> rb_ready (nodes h n)"
proof -
  have pl: "peer_lists h q (inc q) (bsy q)" and rok: "ready_ok h"
    using ok by (simp_all add: lists_ok_def)
  from n consider "n \<in> set (inc q)" | "n \<in> set (bsy q)" | "n \<in> set (queue_ready (peers h q))"
    by (auto simp: members_def)
  then show ?thesis
  proof cases
    case 1
    with pl have "chain h (queue_incoming (peers h q)) (inc q)"
      by (auto simp: peer_lists_def split: if_splits)
    from chain_next_not_null [OF this 1] show ?thesis by simp
  next
    case 2
    with pl have "chain h (queue_busy (peers h q)) (bsy q)"
      by (auto simp: peer_lists_def split: if_splits)
    from chain_next_not_null [OF this 2] show ?thesis by simp
  next
    case 3
    with rok show ?thesis by (auto simp: ready_ok_def)
  qed
qed

lemma pop_lists_ok:
  assumes pop: "b1_distq_peer_pop p n h = Some h'" and ok: "lists_ok h inc bsy"
  shows "lists_ok h' inc bsy"
proof -
  let ?rdy = "queue_ready (peers h p)"
  have cok: "cache_ok h" and rok: "ready_ok h" and sep: "separate h inc bsy"
    using ok by (simp_all add: lists_ok_def)
  have c: "queue_ready_first (peers h p) = (if ?rdy = [] then None else Some (hd ?rdy))"
    "queue_ready_last (peers h p) = (if ?rdy = [] then None else Some (last ?rdy))"
    using cok by (simp_all add: cache_ok_def)
  have d: "distinct ?rdy" using sep by (simp add: separate_def members_def)
  show ?thesis
  proof (cases ?rdy)
    case Nil
    with pop c have h': "h' = upd_peer p (\<lambda>q. q\<lparr>n_committed := n_committed q - 1\<rparr>) (warn_on True h)"
      by (auto simp: b1_distq_peer_pop_def b1_distq_peer_pop_ready_def)
    show ?thesis unfolding h' by (rule lists_ok_fields [OF ok]) simp_all
  next
    case (Cons f fs)
    have fo: "f \<notin> set (members h inc bsy q)" if "q \<noteq> p" for q
    proof -
      have "f \<in> set (members h inc bsy p)" using Cons by (simp add: members_def)
      moreover have "set (members h inc bsy q) \<inter> set (members h inc bsy p) = {}"
        using sep that by (simp add: separate_def)
      ultimately show ?thesis by blast
    qed
    have ff: "f \<notin> set fs" using d Cons by simp
    define g where "g = (if fs = [] then upd_peer p (\<lambda>q. q\<lparr>queue_ready_first := None, queue_ready_last := None,
                                           queue_ready := []\<rparr>) h
                         else upd_peer p (\<lambda>q. q\<lparr>queue_ready_first := Some (hd fs),
                                               queue_ready := fs\<rparr>) h)"
    have pr: "b1_distq_peer_pop_ready p h = Some (Some f, upd_node f (\<lambda>x. x\<lparr>rb_ready := False\<rparr>) g)"
    proof (cases fs)
      case Nil
      then show ?thesis using Cons c by (simp add: b1_distq_peer_pop_ready_def g_def)
    next
      case (Cons f2 fs2)
      then have "last ?rdy \<noteq> f" using \<open>?rdy = f # fs\<close> ff by auto
      then show ?thesis using Cons \<open>?rdy = f # fs\<close> c
        by (auto simp: b1_distq_peer_pop_ready_def g_def)
    qed
    have h': "h' = upd_peer p (\<lambda>q. q\<lparr>n_committed := n_committed q - 1\<rparr>)
                   (warn_on (Some n \<noteq> Some f) (upd_node f (\<lambda>x. x\<lparr>rb_ready := False\<rparr>) g))"
      using pop pr by (simp add: b1_distq_peer_pop_def)
    have rq: "queue_ready (peers h' q) = (if q = p then fs else queue_ready (peers h q))" for q
      unfolding h' g_def by auto
    show ?thesis
    proof (rule lists_ok_frame [OF ok])
      fix q
      show "queue_incoming (peers h' q) = queue_incoming (peers h q)" unfolding h' g_def by auto
      show "queue_busy (peers h' q) = queue_busy (peers h q)" unfolding h' g_def by auto
      show "queue_ready (peers h' q) = queue_ready (peers h q) \<or> queue_ready (peers h' q) = []
        \<or> (\<exists>n. queue_ready (peers h' q) = remove1 n (queue_ready (peers h q)))"
        unfolding rq using Cons by (auto intro: exI [of _ f])
    next
      fix q a assume "a \<in> set (inc q) \<union> set (bsy q)"
      show "next_queue (nodes h' a) = next_queue (nodes h a)" unfolding h' g_def by auto
    next
      fix q m assume m: "m \<in> set (queue_ready (peers h' q))" and mo: "m \<in> set (queue_ready (peers h q))"
      have o: "node_tx (nodes h m) \<noteq> None \<and> rb_ready (nodes h m) \<and> next_queue (nodes h m) = NNull"
        using rok mo by (auto simp: ready_ok_def)
      have "m \<noteq> f"
      proof (cases "q = p")
        case True
        with m ff show ?thesis by (auto simp: rq)
      next
        case False
        from fo [OF this] mo show ?thesis by (auto simp: members_def)
      qed
      then show "node_tx (nodes h' m) \<noteq> None \<and> rb_ready (nodes h' m) \<and> next_queue (nodes h' m) = NNull"
        using o unfolding h' g_def by auto
    next
      show "cache_ok h'"
        unfolding cache_ok_def
      proof (intro allI)
        fix q
        show "queue_ready_first (peers h' q) =
              (if queue_ready (peers h' q) = [] then None else Some (hd (queue_ready (peers h' q))))
          \<and> queue_ready_last (peers h' q) =
              (if queue_ready (peers h' q) = [] then None else Some (last (queue_ready (peers h' q))))"
        proof (cases "q = p")
          case False
          then show ?thesis using cok unfolding h' g_def by (auto simp: cache_ok_def)
        next
          case True
          show ?thesis unfolding True rq
            unfolding h' g_def using c Cons by auto
        qed
      qed
    qed
  qed
qed

lemma queue_open_fields:
  assumes "node_tx (nodes h n) = None" and "next_queue (nodes h n) = NNull"
    and "queue_incoming (peers h dest) \<noteq> NNull"
  shows "next_queue (nodes (b1_distq_node_queue n tx dest h) a) =
           (if a = n then queue_incoming (peers h dest) else next_queue (nodes h a))"
    and "a \<noteq> n \<Longrightarrow> node_tx (nodes (b1_distq_node_queue n tx dest h) a) = node_tx (nodes h a)"
    and "node_tx (nodes (b1_distq_node_queue n tx dest h) n) = Some tx"
    and "rb_ready (nodes (b1_distq_node_queue n tx dest h) a) = rb_ready (nodes h a)"
    and "node_timestamp (nodes (b1_distq_node_queue n tx dest h) a) = node_timestamp (nodes h a)"
    and "queue_incoming (peers (b1_distq_node_queue n tx dest h) q) =
           (if q = dest then NPtr n else queue_incoming (peers h q))"
    and "queue_busy (peers (b1_distq_node_queue n tx dest h) q) = queue_busy (peers h q)"
    and "queue_ready (peers (b1_distq_node_queue n tx dest h) q) = queue_ready (peers h q)"
    and "queue_ready_first (peers (b1_distq_node_queue n tx dest h) q) = queue_ready_first (peers h q)"
    and "queue_ready_last (peers (b1_distq_node_queue n tx dest h) q) = queue_ready_last (peers h q)"
    and "clock (peers (b1_distq_node_queue n tx dest h) q) = clock (peers h q)"
    and "local (peers (b1_distq_node_queue n tx dest h) q) = local (peers h q)"
  using assms
  by (auto simp: b1_distq_node_queue_def Let_def split: prod.splits)

lemma queue_lists_ok:
  assumes ok: "lists_ok h inc bsy"
    and c: "node_tx (nodes h n) = None" "next_queue (nodes h n) = NNull" "\<not> rb_ready (nodes h n)"
  shows "lists_ok (b1_distq_node_queue n tx dest h)
           (if queue_incoming (peers h dest) = NNull then inc else inc(dest := n # inc dest)) bsy"
proof -
  let ?h = "b1_distq_node_queue n tx dest h"
  have new: "n \<notin> set (members h inc bsy q)" for q
    using members_linked [OF ok, of n q] c by auto
  show ?thesis
  proof (cases "queue_incoming (peers h dest) = NNull")
    case True
    have "lists_ok ?h inc bsy"
      unfolding queue_closed_heap [OF c(1,2) True]
    proof (rule lists_ok_fields [OF ok], goal_cases)
      case (6 q a)
      then have "a \<noteq> n" using new by auto
      then show ?case by simp
    qed simp_all
    with True show ?thesis by simp
  next
    case False
    note f = queue_open_fields [OF c(1,2) False, where tx = tx]
    let ?inc = "inc(dest := n # inc dest)"
    have fr: "next_queue (nodes ?h a) = next_queue (nodes h a)" if "a \<in> set (members h inc bsy q)" for a q
      using that new [of q] by (auto simp: f)
    have chi: "chain ?h x (inc q) = chain h x (inc q)" for x q
      by (rule chain_frame) (rule fr [of _ q], simp add: members_def)
    have chb: "chain ?h x (bsy q) = chain h x (bsy q)" for x q
      by (rule chain_frame) (rule fr [of _ q], simp add: members_def)
    have pl: "peer_lists h q (inc q) (bsy q)" for q using ok by (simp add: lists_ok_def)
    have 1: "peer_lists ?h q (?inc q) (bsy q)" for q
    proof (cases "q = dest")
      case True
      from pl [of dest] False have "chain h (queue_incoming (peers h dest)) (inc dest)"
        "chain h (queue_busy (peers h dest)) (bsy dest)"
        by (simp_all add: peer_lists_def)
      then show ?thesis unfolding True by (simp add: peer_lists_def f chi chb)
    next
      case False
      then show ?thesis using pl [of q] by (simp add: peer_lists_def f chi chb)
    qed
    have sep: "separate h inc bsy" using ok by (simp add: lists_ok_def)
    have m: "members ?h ?inc bsy q = (if q = dest then n # members h inc bsy dest else members h inc bsy q)" for q
      by (simp add: members_def f)
    have 2: "separate ?h ?inc bsy"
      unfolding separate_def
    proof (intro conjI allI impI)
      fix q show "distinct (members ?h ?inc bsy q)"
        using sep new [of dest] by (simp add: m separate_def)
    next
      fix q r :: nat assume "q \<noteq> r"
      then show "set (members ?h ?inc bsy q) \<inter> set (members ?h ?inc bsy r) = {}"
        using sep new [of q] new [of r] by (auto simp: m separate_def)
    qed
    have 3: "ready_ok ?h"
      unfolding ready_ok_def
    proof (intro allI ballI)
      fix q m assume "m \<in> set (queue_ready (peers ?h q))"
      then have mo: "m \<in> set (queue_ready (peers h q))" by (simp add: f)
      then have "m \<noteq> n" using new [of q] by (auto simp: members_def)
      moreover have "node_tx (nodes h m) \<noteq> None \<and> rb_ready (nodes h m) \<and> next_queue (nodes h m) = NNull"
        using ok mo by (auto simp: lists_ok_def ready_ok_def)
      ultimately show "node_tx (nodes ?h m) \<noteq> None \<and> rb_ready (nodes ?h m) \<and> next_queue (nodes ?h m) = NNull"
        by (simp add: f)
    qed
    have 4: "cache_ok ?h" using ok by (simp add: lists_ok_def cache_ok_def f)
    show ?thesis using False 1 2 3 4 by (simp add: lists_ok_def)
  qed
qed

lemma fold_detach_ready_nodes:
  "a \<notin> set xs \<Longrightarrow> nodes (fst (fold detach_ready xs (h, l))) a = nodes h a"
  by (induction xs arbitrary: h l) (simp_all add: detach_ready_def)

lemma fold_detach_ready_node_tx [simp]:
  "node_tx (nodes (fst (fold detach_ready xs (h, l))) a) = node_tx (nodes h a)"
  by (induction xs arbitrary: h l) (simp_all add: detach_ready_def)

lemma find_tail_null: "read_slot h sl = NNull \<Longrightarrow> find_tail sl h = None"
  by (subst find_tail.simps) simp

lemma find_tail_busy:
  assumes run: "find_tail (SlotBusy p) h = Some sl"
    and ch: "chain h (queue_busy (peers h p)) bs"
  shows "sl = SlotBusy p \<or> (\<exists>m \<in> set bs. sl = SlotNext m)"
proof -
  let ?I = "\<lambda>sl. \<exists>done rest. bs = done @ rest \<and> sl = slot_after p done \<and> chain h (read_slot h sl) rest"
  have "?I sl \<and> read_slot h sl = NTail"
  proof (rule find_tail_rule [where I = ?I, OF run], goal_cases)
    case 1
    show ?case using ch by (intro exI [of _ "[]"] exI [of _ bs]) (simp add: slot_after_def read_slot_def)
  next
    case (2 sl n)
    then obtain d r where b: "bs = d @ r" and c: "chain h (read_slot h sl) r" by blast
    from c 2(2) obtain r' where r: "r = n # r'" and c': "chain h (next_queue (nodes h n)) r'"
      by (cases r) auto
    show ?case
      by (intro exI [of _ "d @ [n]"] exI [of _ r']) (simp add: b r slot_after_def read_slot_def c')
  qed
  then obtain d r where "bs = d @ r" "sl = slot_after p d" by blast
  then show ?thesis by (cases "d = []") (auto simp: slot_after_def)
qed

lemma finalize_fields:
  assumes fin: "b1_distq_peer_finalize p h = Some (l, h')"
    and op: "queue_incoming (peers h p) \<noteq> NNull"
    and ch: "chain h (queue_busy (peers h p)) bs"
  shows "queue_incoming (peers h' q) = (if q = p then NNull else queue_incoming (peers h q))"
    and "queue_busy (peers h' q) = (if q = p then NNull else queue_busy (peers h q))"
    and "queue_ready (peers h' q) = (if q = p then [] else queue_ready (peers h q))"
    and "queue_ready_first (peers h' q) = (if q = p then None else queue_ready_first (peers h q))"
    and "queue_ready_last (peers h' q) = (if q = p then None else queue_ready_last (peers h q))"
    and "a \<notin> set bs \<union> set (queue_ready (peers h p)) \<Longrightarrow> nodes h' a = nodes h a"
    and "node_tx (nodes h' a) = node_tx (nodes h a)"
proof -
  let ?h1 = "upd_peer p (\<lambda>q. q\<lparr>queue_incoming := NNull\<rparr>) h"
  from fin op obtain sl where sl: "find_tail (SlotBusy p) ?h1 = Some sl"
    by (auto simp: b1_distq_peer_finalize_def Let_def split: option.splits)
  let ?h2 = "write_slot sl (queue_incoming (peers h p)) ?h1"
  let ?h3 = "upd_peer p (\<lambda>q. q\<lparr>queue_busy := NNull\<rparr>) ?h2"
  let ?l2 = "queue_busy (peers ?h2 p)"
  let ?h4 = "fst (fold detach_ready (queue_ready (peers ?h3 p)) (?h3, ?l2))"
  from fin op sl have h': "h' = upd_peer p (\<lambda>q. q\<lparr>queue_ready := [], queue_ready_first := None,
                                                    queue_ready_last := None\<rparr>) ?h4"
    by (simp add: b1_distq_peer_finalize_def Let_def split: prod.splits)
  have "chain ?h1 (queue_busy (peers h p)) bs = chain h (queue_busy (peers h p)) bs"
    by (rule chain_frame) simp
  with ch have "chain ?h1 (queue_busy (peers ?h1 p)) bs" by simp
  from find_tail_busy [OF sl this] have slc: "sl = SlotBusy p \<or> (\<exists>m \<in> set bs. sl = SlotNext m)" .
  have r3: "queue_ready (peers ?h3 p) = queue_ready (peers h p)"
    using slc by (auto simp: write_slot_def)
  show "queue_incoming (peers h' q) = (if q = p then NNull else queue_incoming (peers h q))"
    unfolding h' using slc by (auto simp: write_slot_def)
  show "queue_busy (peers h' q) = (if q = p then NNull else queue_busy (peers h q))"
    unfolding h' using slc by (auto simp: write_slot_def)
  show "queue_ready (peers h' q) = (if q = p then [] else queue_ready (peers h q))"
    unfolding h' using slc by (auto simp: write_slot_def)
  show "queue_ready_first (peers h' q) = (if q = p then None else queue_ready_first (peers h q))"
    unfolding h' using slc by (auto simp: write_slot_def)
  show "queue_ready_last (peers h' q) = (if q = p then None else queue_ready_last (peers h q))"
    unfolding h' using slc by (auto simp: write_slot_def)
  show "node_tx (nodes h' a) = node_tx (nodes h a)"
    unfolding h' using slc by (auto simp: write_slot_def)
  show "nodes h' a = nodes h a" if "a \<notin> set bs \<union> set (queue_ready (peers h p))"
  proof -
    have "nodes ?h4 a = nodes ?h3 a"
      unfolding r3 by (rule fold_detach_ready_nodes) (use that in simp)
    moreover have "nodes ?h3 a = nodes h a" using slc that by (auto simp: write_slot_def)
    ultimately show ?thesis unfolding h' by simp
  qed
qed

lemma finalize_lists_ok:
  assumes fin: "b1_distq_peer_finalize p h = Some (l, h')" and ok: "lists_ok h inc bsy"
  shows "lists_ok h' (inc(p := [])) (bsy(p := []))"
proof (cases "queue_incoming (peers h p) = NNull")
  case True
  have pl: "peer_lists h p (inc p) (bsy p)" using ok by (simp add: lists_ok_def)
  with True have e: "inc(p := []) = inc" "bsy(p := []) = bsy" by (auto simp: peer_lists_def)
  from fin True have h': "h' = upd_peer p (\<lambda>q. q\<lparr>queue_incoming := NNull\<rparr>) h"
    by (simp add: b1_distq_peer_finalize_def Let_def)
  show ?thesis unfolding e h'
    by (rule lists_ok_fields [OF ok]) (use True in auto)
next
  case False
  let ?inc = "inc(p := [])" and ?bsy = "bsy(p := [])"
  have pl: "peer_lists h q (inc q) (bsy q)" for q using ok by (simp add: lists_ok_def)
  from pl [of p] False have chb: "chain h (queue_busy (peers h p)) (bsy p)"
    by (simp add: peer_lists_def)
  note f = finalize_fields [OF fin False chb]
  have sep: "separate h inc bsy" using ok by (simp add: lists_ok_def)
  have same: "nodes h' a = nodes h a" if "q \<noteq> p" "a \<in> set (members h inc bsy q)" for a q
  proof (rule f(6))
    have "set (members h inc bsy q) \<inter> set (members h inc bsy p) = {}"
      using sep that(1) by (simp add: separate_def)
    with that(2) show "a \<notin> set (bsy p) \<union> set (queue_ready (peers h p))"
      by (auto simp: members_def)
  qed
  have 1: "peer_lists h' q (?inc q) (?bsy q)" for q
  proof (cases "q = p")
    case True
    then show ?thesis by (simp add: peer_lists_def f)
  next
    case False
    have "peer_lists h' q (inc q) (bsy q) = peer_lists h q (inc q) (bsy q)"
      by (rule peer_lists_cong) (use False same [OF False] in \<open>auto simp: f members_def\<close>)
    with pl [of q] False show ?thesis by simp
  qed
  have m: "members h' ?inc ?bsy q = (if q = p then [] else members h inc bsy q)" for q
    by (simp add: members_def f)
  have 2: "separate h' ?inc ?bsy"
    using sep unfolding separate_def m by auto
  have 3: "ready_ok h'"
    unfolding ready_ok_def
  proof (intro allI ballI)
    fix q n assume n: "n \<in> set (queue_ready (peers h' q))"
    then have qp: "q \<noteq> p" and no: "n \<in> set (queue_ready (peers h q))"
      by (auto simp: f split: if_splits)
    have "nodes h' n = nodes h n" by (rule same [OF qp]) (use no in \<open>simp add: members_def\<close>)
    moreover have "node_tx (nodes h n) \<noteq> None \<and> rb_ready (nodes h n) \<and> next_queue (nodes h n) = NNull"
      using ok no by (auto simp: lists_ok_def ready_ok_def)
    ultimately show "node_tx (nodes h' n) \<noteq> None \<and> rb_ready (nodes h' n) \<and> next_queue (nodes h' n) = NNull"
      by simp
  qed
  have 4: "cache_ok h'" using ok by (auto simp: lists_ok_def cache_ok_def f)
  show ?thesis using 1 2 3 4 by (simp add: lists_ok_def)
qed

lemma sync_queue_inv:
  assumes run: "b1_distq_peer_sync p to h = Some h'" and inv: "queue_inv h"
  shows "queue_inv h'"
proof -
  from inv obtain inc bsy where ok: "lists_ok h inc bsy" by (auto simp: queue_inv_def)
  show ?thesis
  proof (cases "b1_distq_ts_committed to \<or> sint to \<le> sint (local (peers h p))")
    case True
    with run have h': "h' = warn_on True h" by (auto simp: b1_distq_peer_sync_def)
    have "lists_ok h' inc bsy" unfolding h' by (rule lists_ok_fields [OF ok]) simp_all
    then show ?thesis by (auto simp: queue_inv_def)
  next
    case False
    obtain v w where f: "b1_distq_ts_force_sync (clock (peers h p)) to = (v, w)" by (meson surj_pair)
    let ?h2 = "(upd_peer p (\<lambda>q. q\<lparr>clock := v\<rparr>) (upd_peer p (\<lambda>q. q\<lparr>local := to\<rparr>) h))
                \<lparr>warnings := warnings h + w\<rparr>"
    from run False f have r: "scan_rounds p (Some to) ?h2 = Some h'"
      by (simp add: b1_distq_peer_sync_def Let_def)
    have "lists_ok ?h2 inc bsy" by (rule lists_ok_fields [OF ok]) simp_all
    from scan_rounds_lists_ok [OF r this] show ?thesis by (auto simp: queue_inv_def)
  qed
qed

lemma warn_on_queue_inv: "queue_inv h \<Longrightarrow> queue_inv (warn_on c h)"
  unfolding queue_inv_def
  by (elim exE, intro exI, erule lists_ok_fields) simp_all

lemma peek_front_queue_inv:
  assumes "peek_front p first h = Some (r, h')" and "queue_inv h"
  shows "queue_inv h'"
proof (cases "sint (node_timestamp (nodes h first)) \<ge> sint (local (peers h p))")
  case False
  with assms show ?thesis by (simp add: peek_front_def)
next
  case True
  with assms(1) obtain l h1 where l: "queue_ready_last (peers h p) = Some l"
    and s: "b1_distq_peer_sync p (node_timestamp (nodes h l) + 1) h = Some h1"
    and h': "h' = warn_on (queue_ready_first (peers h1 p) = None) h1"
    by (auto simp: peek_front_def split: option.splits)
  show ?thesis unfolding h' by (rule warn_on_queue_inv) (rule sync_queue_inv [OF s assms(2)])
qed

lemma prefetch_queue_inv:
  assumes "scan_rounds p to h = Some h'" and "queue_inv h"
  shows "queue_inv h'"
  using assms scan_rounds_lists_ok unfolding queue_inv_def by blast

lemma peek_queue_inv:
  assumes "b1_distq_peer_peek p h = Some (r, h')" and "queue_inv h"
  shows "queue_inv h'"
proof (cases "queue_ready_first (peers h p)")
  case (Some first)
  with assms show ?thesis by (auto simp: b1_distq_peer_peek_def intro: peek_front_queue_inv)
next
  case None
  with assms(1) obtain h1 where 1: "scan_rounds p None h = Some h1"
    by (auto simp: b1_distq_peer_peek_def b1_distq_peer_prefetch_def split: option.splits)
  have a: "queue_inv h1" by (rule prefetch_queue_inv [OF 1 assms(2)])
  show ?thesis
  proof (cases "queue_ready_first (peers h1 p)")
    case None
    with assms(1) \<open>queue_ready_first (peers h p) = None\<close> 1 a show ?thesis
      by (auto simp: b1_distq_peer_peek_def b1_distq_peer_prefetch_def)
  next
    case (Some first)
    with assms(1) \<open>queue_ready_first (peers h p) = None\<close> 1
    have "peek_front p first h1 = Some (r, h')"
      by (auto simp: b1_distq_peer_peek_def b1_distq_peer_prefetch_def)
    from peek_front_queue_inv [OF this a] show ?thesis .
  qed
qed

lemma queue_inv_step:
  assumes "step x h = Some h'" and "contract x h" and inv: "queue_inv h"
  shows "queue_inv h'"
proof -
  from inv obtain inc bsy where ok: "lists_ok h inc bsy" by (auto simp: queue_inv_def)
  show ?thesis
  proof (cases x)
    case (Queue n tx dest)
    with assms(2) have "node_tx (nodes h n) = None" "next_queue (nodes h n) = NNull"
      "\<not> rb_ready (nodes h n)" by simp_all
    from queue_lists_ok [OF ok this, of tx dest] assms(1) Queue show ?thesis
      by (auto simp: queue_inv_def)
  next
    case (Commit n dest)
    have "lists_ok (b1_distq_node_commit n dest h) inc bsy"
      by (rule lists_ok_fields [OF ok])
         (auto simp: b1_distq_node_commit_def Let_def split: option.splits prod.splits)
    with assms(1) Commit show ?thesis by (auto simp: queue_inv_def)
  next
    case (TxCommit tx s)
    have "lists_ok (b1_distq_tx_commit tx s h) inc bsy"
      by (rule lists_ok_fields [OF ok]) (auto simp: b1_distq_tx_commit_def Let_def split: prod.splits)
    with assms(1) TxCommit show ?thesis by (auto simp: queue_inv_def)
  next
    case (Peek p)
    with assms(1) inv show ?thesis by (auto intro: peek_queue_inv)
  next
    case (Pop p n)
    with assms(1) have "b1_distq_peer_pop p n h = Some h'" by simp
    from pop_lists_ok [OF this ok] show ?thesis by (auto simp: queue_inv_def)
  next
    case (Finalize p)
    with assms(1) obtain l where "b1_distq_peer_finalize p h = Some (l, h')" by auto
    from finalize_lists_ok [OF this ok] show ?thesis by (auto simp: queue_inv_def)
  next
    case (NodeFinalize n)
    with assms(2) have c: "next_queue (nodes h n) = NNull" "\<not> rb_ready (nodes h n)" by simp_all
    have new: "n \<notin> set (members h inc bsy q)" for q
      using members_linked [OF ok, of n q] c by auto
    have "lists_ok (snd (b1_distq_node_finalize n h)) inc bsy"
    proof (rule lists_ok_fields [OF ok], goal_cases)
      case (6 q a)
      then have "a \<noteq> n" using new by auto
      then show ?case by (simp add: b1_distq_node_finalize_def)
    qed (simp_all add: b1_distq_node_finalize_def)
    with assms(1) NodeFinalize show ?thesis by (auto simp: queue_inv_def)
  next
    case (NodeClaim n)
    have "lists_ok (b1_distq_node_claim n h) inc bsy"
      by (rule lists_ok_fields [OF ok]) (auto simp: b1_distq_node_claim_def)
    with assms(1) NodeClaim show ?thesis by (auto simp: queue_inv_def)
  next
    case (TxClaim tx)
    have "lists_ok (b1_distq_tx_claim tx h) inc bsy"
      by (rule lists_ok_fields [OF ok]) (auto simp: b1_distq_tx_claim_def)
    with assms(1) TxClaim show ?thesis by (auto simp: queue_inv_def)
  qed
qed

lemma queue_inv_run_ok:
  "run_ok xs h = Some h' \<Longrightarrow> queue_inv h \<Longrightarrow> queue_inv h'"
proof (induction xs arbitrary: h)
  case Nil
  then show ?case by simp
next
  case (Cons x xs)
  from Cons.prems(1) obtain h1 where c: "contract x h" and s: "step x h = Some h1"
    and r: "run_ok xs h1 = Some h'"
    by (auto split: if_splits option.splits)
  from Cons.IH [OF r queue_inv_step [OF s c Cons.prems(2)]] show ?case .
qed

lemma queue_inv_fresh: "queue_inv fresh_heap"
  using lists_ok_fresh by (auto simp: queue_inv_def)

text \<open>
  C8. In every store reached from the freshly initialised one by a sequence of engine
  operations that respects the contracts, every node is linked into at most one container
  (incoming list, busy list or ready tree) of at most one peer; every further operation
  that respects its contract and returns keeps it so.
\<close>

theorem single_membership_invariant:
  assumes "run_ok xs fresh_heap = Some h"
    and "contract x h" and "step x h = Some h'"
  shows "single_membership h \<and> single_membership h'"
proof -
  have i: "queue_inv h" by (rule queue_inv_run_ok [OF assms(1) queue_inv_fresh])
  have "queue_inv h'" by (rule queue_inv_step [OF assms(3,2) i])
  with i show ?thesis by (simp add: queue_inv_single_membership)
qed

theorem single_membership_invariant_witness:
  "run_ok [TxClaim 1, TxClaim 2, NodeClaim 1, NodeClaim 2, Queue 1 1 0, Queue 2 2 0,
           TxCommit 1 0, Commit 1 0, Peek 0] fresh_heap \<noteq> None
   \<and> contract (Pop 0 1)
        (the (run_ok [TxClaim 1, TxClaim 2, NodeClaim 1, NodeClaim 2, Queue 1 1 0, Queue 2 2 0,
                      TxCommit 1 0, Commit 1 0, Peek 0] fresh_heap))
   \<and> step (Pop 0 1)
        (the (run_ok [TxClaim 1, TxClaim 2, NodeClaim 1, NodeClaim 2, Queue 1 1 0, Queue 2 2 0,
                      TxCommit 1 0, Commit 1 0, Peek 0] fresh_heap)) \<noteq> None
   \<and> single_membership
        (the (run_ok [TxClaim 1, TxClaim 2, NodeClaim 1, NodeClaim 2, Queue 1 1 0, Queue 2 2 0,
                      TxCommit 1 0, Commit 1 0, Peek 0] fresh_heap))
   \<and> single_membership
        (the (step (Pop 0 1)
          (the (run_ok [TxClaim 1, TxClaim 2, NodeClaim 1, NodeClaim 2, Queue 1 1 0, Queue 2 2 0,
                        TxCommit 1 0, Commit 1 0, Peek 0] fresh_heap))))"
proof -
  from contested_run obtain g where
    r: "run_ok [TxClaim 1, TxClaim 2, NodeClaim 1, NodeClaim 2, Queue 1 1 0, Queue 2 2 0,
              TxCommit 1 0, Commit 1 0, Peek 0] fresh_heap = Some g"
    and v: "peers g 0 =
           \<lparr>clock = 2, local = 2, n_committed = 1, queue_incoming = NTail,
            queue_busy = NPtr 2, queue_ready = [1], queue_ready_first = Some 1,
            queue_ready_last = Some 1\<rparr>"
    by blast
  have c: "contract (Pop 0 1) g" using v by simp
  obtain g' where s: "step (Pop 0 1) g = Some g'"
    using v by (simp add: b1_distq_peer_pop_def b1_distq_peer_pop_ready_def)
  from single_membership_invariant [OF r c s] show ?thesis
    unfolding r option.sel s using c by simp
qed

section \<open>Resolving the timestamp of a transaction\<close>

lemma resolve_ts_cases:
  assumes r: "resolve_ts to tx h = (ts, h1)"
    and t: "\<And>t. to = Some t \<Longrightarrow> \<not> b1_distq_ts_committed t"
  shows "nodes h1 = nodes h \<and> peers h1 = peers h
     \<and> (\<forall>u. u \<noteq> tx \<longrightarrow> txs h1 u = txs h u)
     \<and> tx_timestamp (txs h1 tx) = ts
     \<and> sint (tx_timestamp (txs h tx)) \<le> sint ts
     \<and> (b1_distq_ts_committed ts \<longrightarrow> ts = tx_timestamp (txs h tx))
     \<and> (\<not> b1_distq_ts_committed ts \<longrightarrow> (\<forall>t. to = Some t \<longrightarrow> sint t \<le> sint ts))
     \<and> (to = None \<longrightarrow> ts = tx_timestamp (txs h tx))"
proof (cases to)
  case None
  with r show ?thesis by (auto simp: resolve_ts_def)
next
  case (Some t')
  with t have "\<not> b1_distq_ts_committed t'" by simp
  with r Some show ?thesis
    by (auto simp: resolve_ts_def b1_distq_ts_try_sync_def Let_def split: if_splits)
qed

lemma waiting_ok_mono:
  assumes "waiting_ok h b n"
    and "node_timestamp (nodes h' n) = node_timestamp (nodes h n)"
    and "node_tx (nodes h' n) = node_tx (nodes h n)"
    and "\<And>t. sint (tx_timestamp (txs h t)) \<le> sint (tx_timestamp (txs h' t))"
    and "b' \<le> b"
  shows "waiting_ok h' b' n"
proof -
  from assms(1) obtain t where t: "node_tx (nodes h n) = Some t" "b \<le> sint (tx_timestamp (txs h t))"
    and z: "node_timestamp (nodes h n) = 0" by (auto simp: waiting_ok_def)
  from t(2) assms(4) [of t] assms(5) have "b' \<le> sint (tx_timestamp (txs h' t))" by linarith
  with t(1) z assms(2,3) show ?thesis by (auto simp: waiting_ok_def)
qed

lemma sorted_insert_between:
  assumes "sorted (map f (lo @ hi))"
    and "\<forall>e \<in> set lo. f e \<le> f x"
    and "hi \<noteq> [] \<longrightarrow> f x \<le> f (hd hi)"
  shows "sorted (map f (lo @ x # hi))"
proof -
  have "f x \<le> f e" if "e \<in> set hi" for e
  proof -
    from that have ne: "hi \<noteq> []" by auto
    then obtain a as where hi: "hi = a # as" by (cases hi) auto
    from assms(1) have "sorted (map f (a # as))" unfolding hi by (simp add: sorted_append)
    then have "f a \<le> f e" using that hi by auto
    with assms(3) ne hi show ?thesis by simp
  qed
  with assms show ?thesis by (auto simp: sorted_append)
qed

section \<open>The walk over the busy list keeps the order\<close>

lemma ready_times_cong:
  "queue_ready (peers h' p) = queue_ready (peers h p) \<Longrightarrow>
   (\<And>n. n \<in> set (queue_ready (peers h p)) \<Longrightarrow> node_timestamp (nodes h' n) = node_timestamp (nodes h n)) \<Longrightarrow>
   ready_times h' p = ready_times h p"
  by (simp add: ready_times_def)

lemma resolve_ts_times:
  assumes r: "resolve_ts to tx h = (ts, h1)"
    and t: "\<And>t. to = Some t \<Longrightarrow> \<not> b1_distq_ts_committed t"
    and ok: "times_ok h"
  shows "times_ok h1"
proof -
  note c = resolve_ts_cases [OF r t]
  have n: "nodes h1 = nodes h" and p: "peers h1 = peers h" using c by simp_all
  have rt: "ready_times h1 q = ready_times h q" for q by (simp add: ready_times_def n p)
  have b: "sint (tx_timestamp (txs h1 u)) < 2 ^ 63 - 1" if "b1_distq_ts_committed (tx_timestamp (txs h1 u))" for u
  proof (cases "u = tx")
    case True
    with that c have "ts = tx_timestamp (txs h tx)" "b1_distq_ts_committed ts" by auto
    with ok c True show ?thesis by (auto simp: times_ok_def)
  next
    case False
    with c have "txs h1 u = txs h u" by simp
    with that ok show ?thesis by (auto simp: times_ok_def)
  qed
  show ?thesis using ok b unfolding times_ok_def rt n p by blast
qed

lemma resolve_ts_tx_mono:
  assumes r: "resolve_ts to tx h = (ts, h1)"
    and t: "\<And>t. to = Some t \<Longrightarrow> \<not> b1_distq_ts_committed t"
  shows "sint (tx_timestamp (txs h u)) \<le> sint (tx_timestamp (txs h1 u))"
  using resolve_ts_cases [OF r t] by (cases "u = tx") auto

lemma resolve_ts_waiting:
  assumes r: "resolve_ts to tx h = (ts, h1)"
    and t: "\<And>t. to = Some t \<Longrightarrow> \<not> b1_distq_ts_committed t"
    and w: "waiting_ok h b n"
  shows "waiting_ok h1 b n"
proof (rule waiting_ok_mono [OF w])
  show "sint (tx_timestamp (txs h u)) \<le> sint (tx_timestamp (txs h1 u))" for u
    by (rule resolve_ts_tx_mono [OF r t])
qed (use resolve_ts_cases [OF r t] in simp_all)

lemma scan_times_to:
  assumes "scan_times h p to b inc bsy done rest" and "to = Some t"
  shows "\<not> b1_distq_ts_committed t" and "local (peers h p) = t"
  using assms by (auto simp: scan_times_def)

lemma scan_times_skip:
  assumes ok: "scan_ok h p inc bsy done rest sl"
    and st: "scan_times h p to b inc bsy done rest"
    and rd: "read_slot h sl = NPtr node"
    and tx: "node_tx (nodes h node) = Some tx"
    and r: "resolve_ts to tx h = (ts, h1)"
    and nc: "\<not> b1_distq_ts_committed ts"
  shows "scan_times h1 p to b inc bsy (done @ [node]) (tl rest)"
proof -
  have t: "\<not> b1_distq_ts_committed t" if "to = Some t" for t
    using scan_times_to [OF st that] by simp
  note c = resolve_ts_cases [OF r t]
  have n: "nodes h1 = nodes h" and p: "peers h1 = peers h" using c by simp_all
  from scan_ok_rest [OF ok rd] obtain rest' where rest: "rest = node # rest'" by blast
  have w: "waiting_ok h b' m \<Longrightarrow> waiting_ok h1 b' m" for b' m
    by (rule resolve_ts_waiting [OF r t])
  have wn: "waiting_ok h b node" using st rest by (simp add: scan_times_def)
  have "sint (local (peers h p)) \<le> sint ts"
  proof (cases to)
    case None
    with c have "ts = tx_timestamp (txs h tx)" by simp
    moreover from st None have "b = sint (local (peers h p))" by (simp add: scan_times_def)
    ultimately show ?thesis using wn tx by (auto simp: waiting_ok_def)
  next
    case (Some t')
    with c nc have "sint t' \<le> sint ts" by simp
    with scan_times_to(2) [OF st Some] show ?thesis by simp
  qed
  then have wn1: "waiting_ok h1 (sint (local (peers h1 p))) node"
    using wn tx c by (auto simp: waiting_ok_def n p)
  have "clock_inv h1" using st clock_inv_resolve [of h to tx] r by (simp add: scan_times_def)
  moreover have "times_ok h1" using resolve_ts_times [OF r t] st by (simp add: scan_times_def)
  ultimately show ?thesis
    using st w wn1 unfolding scan_times_def rest p by (auto simp: p)
qed


lemma scan_ok_node_new:
  assumes ok: "scan_ok h p inc bsy done rest sl" and rd: "read_slot h sl = NPtr node"
  shows "node \<notin> set (queue_ready (peers h q))"
    and "node \<notin> set done \<union> set (tl rest) \<union> set (inc p)"
    and "q \<noteq> p \<Longrightarrow> node \<notin> set (inc q) \<union> set (bsy q)"
proof -
  from scan_ok_rest [OF ok rd] obtain rest' where rest: "rest = node # rest'" by blast
  have bp: "bsy p = done @ node # rest'" using ok rest unfolding scan_ok_def by blast
  have sep: "separate h inc bsy" using ok unfolding scan_ok_def by blast
  have "distinct (members h inc bsy p)" using sep by (simp add: separate_def)
  then have d: "distinct (inc p @ done @ node # rest' @ queue_ready (peers h p))"
    by (simp add: members_def bp)
  have np: "node \<in> set (members h inc bsy p)" by (simp add: members_def bp)
  have o: "node \<notin> set (members h inc bsy q)" if "q \<noteq> p" for q
  proof -
    have "set (members h inc bsy q) \<inter> set (members h inc bsy p) = {}"
      using sep that by (simp add: separate_def)
    with np show ?thesis by blast
  qed
  show "node \<notin> set (queue_ready (peers h q))"
  proof (cases "q = p")
    case True then show ?thesis using d by auto
  next
    case False from o [OF this] show ?thesis by (simp add: members_def)
  qed
  show "node \<notin> set done \<union> set (tl rest) \<union> set (inc p)" using d rest by auto
  show "node \<notin> set (inc q) \<union> set (bsy q)" if "q \<noteq> p" using o [OF that] by (simp add: members_def)
qed

lemma promote_ready_times:
  assumes new: "\<And>q. node \<notin> set (queue_ready (peers h q))"
    and z: "node_timestamp (nodes h node) = 0"
    and s: "\<And>q. sorted (ready_times h q)"
  shows "sorted (ready_times (promote p sl node ts h) q)"
    and "set (ready_times (promote p sl node ts h) q) =
           (if q = p then insert (sint ts) (set (ready_times h p)) else set (ready_times h q))"
proof -
  let ?h = "promote p sl node ts h"
  let ?f = "\<lambda>n. sint (node_timestamp (nodes h n))" and ?g = "\<lambda>n. sint (node_timestamp (nodes ?h n))"
  have g: "?g e = ?f e" if "e \<noteq> node" for e using that by (simp add: promote_node_timestamp)
  have gn: "?g node = sint ts" using z by (simp add: promote_node_timestamp)
  have old: "map ?g xs = map ?f xs" if "node \<notin> set xs" for xs
    using that g by (induction xs) auto
  obtain lo hi where l: "queue_ready (peers h p) = lo @ hi"
    "queue_ready (peers ?h p) = lo @ node # hi"
    "\<forall>e \<in> set lo. ?g e \<le> ?g node" "hi \<noteq> [] \<longrightarrow> ?g node \<le> ?g (hd hi)"
    using promote_lists [of h p sl node ts] by blast
  have nl: "node \<notin> set (lo @ hi)" using new [of p] l(1) by simp
  have sp: "sorted (map ?g (lo @ hi))"
    using s [of p] unfolding old [OF nl] by (simp add: ready_times_def l(1))
  have "sorted (map ?g (lo @ node # hi))"
    by (rule sorted_insert_between [OF sp l(3,4)])
  then have 1: "sorted (ready_times ?h p)" by (simp add: ready_times_def l(2))
  have 2: "ready_times ?h q = ready_times h q" if "q \<noteq> p" for q
    using that new [of q] old [of "queue_ready (peers h q)"]
    by (simp add: ready_times_def promote_queue_ready_other)
  show "sorted (ready_times ?h q)" using 1 2 [of q] s [of q] by (cases "q = p") simp_all
  have "set (ready_times ?h p) = insert (sint ts) (set (ready_times h p))"
  proof -
    have "map ?g (lo @ node # hi) = map ?f lo @ sint ts # map ?f hi"
      using nl old [of lo] old [of hi] gn by simp
    then show ?thesis by (auto simp: ready_times_def l(1,2))
  qed
  then show "set (ready_times ?h q) =
           (if q = p then insert (sint ts) (set (ready_times h p)) else set (ready_times h q))"
    using 2 [of q] by simp
qed

lemma scan_times_promote:
  assumes ok: "scan_ok h p inc bsy done rest sl"
    and st: "scan_times h p to b inc bsy done rest"
    and rd: "read_slot h sl = NPtr node"
    and tx: "node_tx (nodes h node) = Some tx"
    and r: "resolve_ts to tx h = (ts, h1)"
    and co: "b1_distq_ts_committed ts"
  shows "scan_times (promote p sl node ts h1) p to b inc (bsy(p := done @ tl rest)) done (tl rest)"
    and "lower_bound h q x \<Longrightarrow> (q = p \<longrightarrow> x \<le> b) \<Longrightarrow> lower_bound (promote p sl node ts h1) q x"
proof -
  let ?h = "promote p sl node ts h1"
  have t: "\<not> b1_distq_ts_committed t" if "to = Some t" for t
    using scan_times_to [OF st that] by simp
  note c = resolve_ts_cases [OF r t]
  have n: "nodes h1 = nodes h" and p: "peers h1 = peers h" using c by simp_all
  have tse: "ts = tx_timestamp (txs h tx)" using c co by simp
  from scan_ok_rest [OF ok rd] obtain rest' where rest: "rest = node # rest'" by blast
  have wn: "waiting_ok h b node" using st rest by (simp add: scan_times_def)
  have z: "node_timestamp (nodes h1 node) = 0" using wn by (simp add: waiting_ok_def n)
  have bts: "b \<le> sint ts" using wn tx tse by (auto simp: waiting_ok_def)
  have tok: "times_ok h1" using resolve_ts_times [OF r t] st by (simp add: scan_times_def)
  have "times_ok h" using st by (simp add: scan_times_def)
  then have "b1_distq_ts_committed (tx_timestamp (txs h tx)) \<longrightarrow> sint (tx_timestamp (txs h tx)) < 2 ^ 63 - 1"
    unfolding times_ok_def by blast
  then have bound: "sint ts < 2 ^ 63 - 1" using co unfolding tse by simp
  note new = scan_ok_node_new [OF ok rd]
  have new1: "node \<notin> set (queue_ready (peers h1 q))" for q using new(1) [of q] by (simp add: p)
  have srt: "sorted (ready_times h1 q)" for q using tok by (simp add: times_ok_def)
  note rt = promote_ready_times [OF new1 z srt, of p sl ts]
  have nts: "node_timestamp (nodes ?h m) = (if m = node then ts else node_timestamp (nodes h m))" for m
    using z by (simp add: promote_node_timestamp n)
  have ci: "clock_inv ?h"
    using st clock_inv_resolve [of h to tx] r co by (intro clock_inv_promote) (simp_all add: scan_times_def)
  have 1: "times_ok ?h"
    unfolding times_ok_def
  proof (intro conjI allI ballI impI)
    fix q show "sint (local (peers ?h q)) \<le> sint (clock (peers ?h q))"
      using tok by (simp add: times_ok_def)
    show "sorted (ready_times ?h q)" by (rule rt(1))
  next
    fix q m assume m: "m \<in> set (queue_ready (peers ?h q))"
    show "b1_distq_ts_committed (node_timestamp (nodes ?h m))"
      and "sint (node_timestamp (nodes ?h m)) < 2 ^ 63 - 1"
    proof -
      have "b1_distq_ts_committed (node_timestamp (nodes ?h m)) \<and> sint (node_timestamp (nodes ?h m)) < 2 ^ 63 - 1"
      proof (cases "m = node")
        case True
        then show ?thesis using co bound by (simp add: nts)
      next
        case False
        with m have "m \<in> set (queue_ready (peers h1 q))"
          by (auto simp: promote_ready_set split: if_splits)
        with tok False show ?thesis by (auto simp: times_ok_def nts n)
      qed
      then show "b1_distq_ts_committed (node_timestamp (nodes ?h m))"
        and "sint (node_timestamp (nodes ?h m)) < 2 ^ 63 - 1" by simp_all
    qed
  next
    fix u assume "b1_distq_ts_committed (tx_timestamp (txs ?h u))"
    then show "sint (tx_timestamp (txs ?h u)) < 2 ^ 63 - 1" using tok by (simp add: times_ok_def)
  qed
  have w: "waiting_ok ?h b' m" if "waiting_ok h b' m" "m \<noteq> node" for b' m
  proof (rule waiting_ok_mono [OF that(1)])
    show "node_timestamp (nodes ?h m) = node_timestamp (nodes h m)" using that(2) by (simp add: nts)
    show "node_tx (nodes ?h m) = node_tx (nodes h m)" by (simp add: n)
    show "sint (tx_timestamp (txs h u)) \<le> sint (tx_timestamp (txs ?h u))" for u
      using resolve_ts_tx_mono [OF r t, of u] by simp
  qed simp
  have lp: "local (peers ?h q) = local (peers h q)" for q by (simp add: p)
  show "scan_times ?h p to b inc (bsy(p := done @ tl rest)) done (tl rest)"
    unfolding scan_times_def lp
  proof (intro conjI allI impI ballI)
    show "clock_inv ?h" by (rule ci)
    show "times_ok ?h" by (rule 1)
  next
    fix q m assume "q \<noteq> p" and "m \<in> set (inc q) \<union> set ((bsy(p := done @ tl rest)) q)"
    then have m: "m \<in> set (inc q) \<union> set (bsy q)" by simp
    with new(3) [OF \<open>q \<noteq> p\<close>] have "m \<noteq> node" by blast
    moreover have "waiting_ok h (sint (local (peers h q))) m"
      using st \<open>q \<noteq> p\<close> m by (simp add: scan_times_def)
    ultimately show "waiting_ok ?h (sint (local (peers h q))) m" by (intro w)
  next
    fix m assume m: "m \<in> set done"
    with new(2) have "m \<noteq> node" by blast
    moreover have "waiting_ok h (sint (local (peers h p))) m" using st m by (simp add: scan_times_def)
    ultimately show "waiting_ok ?h (sint (local (peers h p))) m" by (intro w)
  next
    fix m assume m: "m \<in> set (tl rest) \<union> set (inc p)"
    with new(2) have "m \<noteq> node" by blast
    moreover have "waiting_ok h b m" using st m rest by (auto simp: scan_times_def)
    ultimately show "waiting_ok ?h b m" by (intro w)
  next
    show "b \<le> sint (local (peers h p))" using st by (simp add: scan_times_def)
    show "case to of None \<Rightarrow> b = sint (local (peers h p))
          | Some t \<Rightarrow> local (peers h p) = t \<and> \<not> b1_distq_ts_committed t"
      using st by (simp add: scan_times_def)
  qed
  show "lower_bound ?h q x" if lb: "lower_bound h q x" and xb: "q = p \<longrightarrow> x \<le> b"
  proof -
    have "ready_times h1 q = ready_times h q" by (simp add: ready_times_def n p)
    with lb have o: "\<forall>t \<in> set (ready_times h1 q). x \<le> t" "x \<le> sint (local (peers h q))"
      by (simp_all add: lower_bound_def)
    show ?thesis unfolding lower_bound_def lp rt(2)
      using o xb bts by auto
  qed
qed

lemma times_cong:
  assumes "txs h' = txs h"
    and "\<And>q. clock (peers h' q) = clock (peers h q)"
    and "\<And>q. local (peers h' q) = local (peers h q)"
    and "\<And>q. queue_ready (peers h' q) = queue_ready (peers h q)"
    and "\<And>q. queue_ready_last (peers h' q) = queue_ready_last (peers h q)"
    and "\<And>n. node_timestamp (nodes h' n) = node_timestamp (nodes h n)"
    and "\<And>n. node_tx (nodes h' n) = node_tx (nodes h n)"
  shows "clock_inv h' = clock_inv h" and "times_ok h' = times_ok h"
    and "waiting_ok h' = waiting_ok h" and "lower_bound h' = lower_bound h"
    and "ready_times h' = ready_times h"
    and "scan_times h' = scan_times h"
proof -
  show c: "clock_inv h' = clock_inv h" by (simp add: clock_inv_def assms)
  show r: "ready_times h' = ready_times h" by (intro ext) (simp add: ready_times_def assms)
  show t: "times_ok h' = times_ok h" by (simp add: times_ok_def assms r)
  show w: "waiting_ok h' = waiting_ok h" by (intro ext) (simp add: waiting_ok_def assms)
  show "lower_bound h' = lower_bound h" by (intro ext) (simp add: lower_bound_def assms r)
  show "scan_times h' = scan_times h"
    by (intro ext) (simp add: scan_times_def assms c t w cong: option.case_cong)
qed

lemma scan_queue_order:
  assumes run: "scan_queue p to sl h = Some (sl', h')"
    and ok: "scan_ok h p inc bsy done rest sl"
    and st: "scan_times h p to b inc bsy done rest"
    and lb: "lower_bound h P x" and xb: "P = p \<longrightarrow> x \<le> b"
  shows "\<exists>bsy' done'. scan_ok h' p inc bsy' done' [] sl'
           \<and> scan_times h' p to b inc bsy' done' [] \<and> lower_bound h' P x"
proof -
  let ?I = "\<lambda>sl g. \<exists>bsy' done' rest'. scan_ok g p inc bsy' done' rest' sl
              \<and> scan_times g p to b inc bsy' done' rest' \<and> lower_bound g P x"
  have "?I sl' h' \<and> read_slot h' sl' = NTail"
  proof (rule scan_queue_rule [where I = ?I, OF run], goal_cases)
    case 1
    show ?case using ok st lb by blast
  next
    case (2 sl g node tx ts g1)
    then obtain b' d r where s: "scan_ok g p inc b' d r sl" and t: "scan_times g p to b inc b' d r"
      and l: "lower_bound g P x" by blast
    have g1: "g1 = snd (resolve_ts to tx g)" using 2(4) by simp
    have s1: "scan_ok g1 p inc b' d r sl"
      using s unfolding g1 by (subst scan_ok_heap_cong) simp_all
    have r1: "read_slot g1 sl = NPtr node" using 2(2) unfolding g1 by simp
    have t1: "node_tx (nodes g1 node) \<noteq> None" using 2(3) unfolding g1 by simp
    note a = scan_ok_promote [OF s1 r1 t1, of ts]
    note b = scan_times_promote [OF s t 2(2) 2(3) 2(4) 2(5)]
    from a b(1) b(2) [OF l xb] show ?case by blast
  next
    case (3 sl g node tx ts g1)
    then obtain b' d r where s: "scan_ok g p inc b' d r sl" and t: "scan_times g p to b inc b' d r"
      and l: "lower_bound g P x" by blast
    have g1: "g1 = snd (resolve_ts to tx g)" using 3(4) by simp
    have "scan_ok g p inc b' (d @ [node]) (tl r) (SlotNext node)"
      by (rule scan_ok_skip [OF s 3(2)])
    then have a: "scan_ok g1 p inc b' (d @ [node]) (tl r) (SlotNext node)"
      unfolding g1 by (subst scan_ok_heap_cong) simp_all
    have b: "scan_times g1 p to b inc b' (d @ [node]) (tl r)"
      by (rule scan_times_skip [OF s t 3(2) 3(3) 3(4) 3(5)])
    have "lower_bound g1 P x" using l unfolding g1 lower_bound_def ready_times_def by simp
    with a b show ?case by blast
  qed
  then obtain b' d r where s: "scan_ok h' p inc b' d r sl'"
    and t: "scan_times h' p to b inc b' d r" and l: "lower_bound h' P x"
    and e: "read_slot h' sl' = NTail" by blast
  have "chain h' (read_slot h' sl') r" using s unfolding scan_ok_def by blast
  with e have "r = []" by (cases r) auto
  with s t l show ?thesis by blast
qed

lemma scan_rounds_order:
  assumes run: "scan_rounds p to h = Some h'"
    and ok: "lists_ok h inc bsy"
    and st: "scan_times h p to b inc bsy [] (bsy p)"
    and lb: "lower_bound h P x" and xb: "P = p \<longrightarrow> x \<le> b"
  shows "(\<exists>inc' bsy'. order_ok h' inc' bsy') \<and> lower_bound h' P x"
proof -
  from run obtain sl h1 where 1: "scan_queue p to (SlotBusy p) h = Some (sl, h1)"
    by (auto simp: scan_rounds_def split: option.splits)
  let ?h3 = "write_slot sl (queue_incoming (peers h1 p)) (upd_peer p (\<lambda>q. q\<lparr>queue_incoming := NTail\<rparr>) h1)"
  from run 1 obtain sl2 where 2: "scan_queue p to sl ?h3 = Some (sl2, h')"
    by (auto simp: scan_rounds_def Let_def split: option.splits)
  have open_p: "queue_incoming (peers h p) \<noteq> NNull"
  proof
    assume "queue_incoming (peers h p) = NNull"
    with ok have "queue_busy (peers h p) = NNull" by (auto simp: lists_ok_def peer_lists_def)
    then have "scan_queue p to (SlotBusy p) h = None"
      by (intro scan_queue_null) (simp add: read_slot_def)
    with 1 show False by simp
  qed
  from scan_queue_order [OF 1 lists_ok_scan_start [OF ok open_p] st lb xb]
  obtain b1 d1 where s1: "scan_ok h1 p inc b1 d1 [] sl"
    and t1: "scan_times h1 p to b inc b1 d1 []" and l1: "lower_bound h1 P x" by blast
  have bp: "b1 p = d1" using s1 unfolding scan_ok_def by simp
  note c = times_cong [of ?h3 h1]
  have e: "txs ?h3 = txs h1" "\<And>q. clock (peers ?h3 q) = clock (peers h1 q)"
    "\<And>q. local (peers ?h3 q) = local (peers h1 q)"
    "\<And>q. queue_ready (peers ?h3 q) = queue_ready (peers h1 q)"
    "\<And>q. queue_ready_last (peers ?h3 q) = queue_ready_last (peers h1 q)"
    "\<And>n. node_timestamp (nodes ?h3 n) = node_timestamp (nodes h1 n)"
    "\<And>n. node_tx (nodes ?h3 n) = node_tx (nodes h1 n)"
    by (cases sl; simp add: write_slot_def)+
  have t3: "scan_times ?h3 p to b (inc(p := [])) (b1(p := d1 @ inc p)) d1 (inc p)"
    unfolding c(6) [OF e] using t1 unfolding scan_times_def by auto
  have l3: "lower_bound ?h3 P x" unfolding c(4) [OF e] by (rule l1)
  from scan_queue_order [OF 2 scan_ok_fetch [OF s1] t3 l3 xb]
  obtain b2 d2 where s2: "scan_ok h' p (inc(p := [])) b2 d2 [] sl2"
    and t2: "scan_times h' p to b (inc(p := [])) b2 d2 []" and l2: "lower_bound h' P x" by blast
  have b2p: "b2 p = d2" using s2 unfolding scan_ok_def by simp
  have "order_ok h' (inc(p := [])) b2"
    unfolding order_ok_def
  proof (intro conjI allI ballI)
    show "lists_ok h' (inc(p := [])) b2" by (rule scan_ok_finish [OF s2])
    show "clock_inv h'" "times_ok h'" using t2 by (simp_all add: scan_times_def)
  next
    fix q n assume n: "n \<in> set ((inc(p := [])) q) \<union> set (b2 q)"
    show "waiting_ok h' (sint (local (peers h' q))) n"
    proof (cases "q = p")
      case True
      with n b2p have "n \<in> set d2" by simp
      with t2 True show ?thesis by (simp add: scan_times_def)
    next
      case False
      with t2 n show ?thesis unfolding scan_times_def by blast
    qed
  qed
  with l2 show ?thesis by blast
qed

section \<open>Peek keeps the order and returns the least timestamp\<close>

lemma sint_succ_below_max:
  assumes "sint (v::s64) < 2 ^ 63 - 1"
  shows "sint (v + 1) = sint v + 1"
proof -
  have ge: "- (2 ^ 63) \<le> sint v" using sint_ge [of v] by simp
  have "sint (v + 1) = signed_take_bit 63 (sint v + 1)"
    by (simp add: sint_word_ariths)
  also have "\<dots> = sint v + 1"
    using assms ge by (simp add: signed_take_bit_int_eq_self_iff)
  finally show ?thesis .
qed

lemma force_sync_ge:
  "\<not> b1_distq_ts_committed v \<Longrightarrow> sint to \<le> sint (fst (b1_distq_ts_force_sync v to))"
  by (simp add: b1_distq_ts_force_sync_def Let_def)

lemma scan_queue_keeps:
  assumes run: "scan_queue p to sl h = Some (sl', h')"
    and l: "l \<in> set (queue_ready (peers h q))" and v: "node_timestamp (nodes h l) = v" "v \<noteq> 0"
  shows "l \<in> set (queue_ready (peers h' q)) \<and> node_timestamp (nodes h' l) = v
         \<and> local (peers h' q) = local (peers h q)"
proof -
  define c where "c = local (peers h q)"
  let ?Q = "\<lambda>g. l \<in> set (queue_ready (peers g q)) \<and> node_timestamp (nodes g l) = v \<and> local (peers g q) = c"
  have "?Q h'"
  proof (rule scan_queue_preserves [where Q = ?Q, OF run], goal_cases)
    case 1
    show ?case using l v by (simp add: c_def)
  next
    case (2 g tx)
    then show ?case by simp
  next
    case (3 sl g node ts)
    then show ?case using v(2) by (auto simp: promote_ready_set promote_node_timestamp)
  qed
  then show ?thesis by (simp add: c_def)
qed

lemma scan_rounds_keeps:
  assumes run: "scan_rounds p to h = Some h'"
    and l: "l \<in> set (queue_ready (peers h q))" and v: "node_timestamp (nodes h l) = v" "v \<noteq> 0"
  shows "l \<in> set (queue_ready (peers h' q)) \<and> node_timestamp (nodes h' l) = v
         \<and> local (peers h' q) = local (peers h q)"
proof -
  from run obtain sl h1 where 1: "scan_queue p to (SlotBusy p) h = Some (sl, h1)"
    by (auto simp: scan_rounds_def split: option.splits)
  let ?h3 = "write_slot sl (queue_incoming (peers h1 p)) (upd_peer p (\<lambda>q. q\<lparr>queue_incoming := NTail\<rparr>) h1)"
  from run 1 obtain sl2 where 2: "scan_queue p to sl ?h3 = Some (sl2, h')"
    by (auto simp: scan_rounds_def Let_def split: option.splits)
  note a = scan_queue_keeps [OF 1 l v]
  have e: "queue_ready (peers ?h3 q) = queue_ready (peers h1 q)"
    "node_timestamp (nodes ?h3 l) = node_timestamp (nodes h1 l)"
    "local (peers ?h3 q) = local (peers h1 q)"
    by (cases sl; simp add: write_slot_def)+
  have "l \<in> set (queue_ready (peers ?h3 q))" "node_timestamp (nodes ?h3 l) = v"
    using a e by simp_all
  from scan_queue_keeps [OF 2 this v(2)] a e show ?thesis by simp
qed

lemma scan_rounds_local:
  assumes run: "scan_rounds p to h = Some h'"
  shows "local (peers h' q) = local (peers h q)"
proof -
  from run obtain sl h1 where 1: "scan_queue p to (SlotBusy p) h = Some (sl, h1)"
    by (auto simp: scan_rounds_def split: option.splits)
  let ?h3 = "write_slot sl (queue_incoming (peers h1 p)) (upd_peer p (\<lambda>q. q\<lparr>queue_incoming := NTail\<rparr>) h1)"
  from run 1 obtain sl2 where 2: "scan_queue p to sl ?h3 = Some (sl2, h')"
    by (auto simp: scan_rounds_def Let_def split: option.splits)
  have a: "local (peers g' q) = local (peers g q)" if "scan_queue p to s g = Some (s', g')" for s g s' g'
  proof -
    define c where "c = local (peers g q)"
    have "local (peers g' q) = c"
      by (rule scan_queue_preserves [where Q = "\<lambda>g. local (peers g q) = c", OF that])
         (simp_all add: c_def)
    then show ?thesis by (simp add: c_def)
  qed
  have "local (peers ?h3 q) = local (peers h1 q)" by (cases sl; simp add: write_slot_def)
  with a [OF 1] a [OF 2] show ?thesis by simp
qed

lemma prefetch_order:
  assumes run: "scan_rounds p None h = Some h'"
    and ok: "order_inv h" and lb: "lower_bound h P x"
  shows "order_inv h' \<and> lower_bound h' P x"
proof -
  from ok obtain inc bsy where o: "order_ok h inc bsy" by (auto simp: order_inv_def)
  have st: "scan_times h p None (sint (local (peers h p))) inc bsy [] (bsy p)"
    using o unfolding order_ok_def scan_times_def by auto
  have xb: "P = p \<longrightarrow> x \<le> sint (local (peers h p))" using lb by (auto simp: lower_bound_def)
  have "lists_ok h inc bsy" using o by (simp add: order_ok_def)
  from scan_rounds_order [OF run this st lb xb] show ?thesis by (simp add: order_inv_def)
qed

lemma order_ok_fields:
  assumes ok: "order_ok h inc bsy"
    and l: "lists_ok h' inc bsy"
    and e: "txs h' = txs h" "\<And>q. clock (peers h' q) = clock (peers h q)"
    "\<And>q. local (peers h' q) = local (peers h q)"
    "\<And>q. queue_ready (peers h' q) = queue_ready (peers h q)"
    "\<And>q. queue_ready_last (peers h' q) = queue_ready_last (peers h q)"
    "\<And>n. node_timestamp (nodes h' n) = node_timestamp (nodes h n)"
    "\<And>n. node_tx (nodes h' n) = node_tx (nodes h n)"
  shows "order_ok h' inc bsy"
  using ok l unfolding order_ok_def times_cong [OF e] e by simp

lemma sync_order:
  assumes run: "b1_distq_peer_sync p to h = Some h'"
    and ok: "order_inv h" and lb: "lower_bound h P x"
  shows "order_inv h' \<and> lower_bound h' P x"
proof -
  from ok obtain inc bsy where o: "order_ok h inc bsy" by (auto simp: order_inv_def)
  have lok: "lists_ok h inc bsy" and ci: "clock_inv h" and tok: "times_ok h"
    using o by (simp_all add: order_ok_def)
  show ?thesis
  proof (cases "b1_distq_ts_committed to \<or> sint to \<le> sint (local (peers h p))")
    case True
    with run have h': "h' = warn_on True h" by (auto simp: b1_distq_peer_sync_def)
    have "lists_ok h' inc bsy" unfolding h' by (rule lists_ok_fields [OF lok]) simp_all
    then have "order_ok h' inc bsy" unfolding h' by (intro order_ok_fields [OF o]) simp_all
    moreover have "lower_bound h' P x" using lb unfolding h' lower_bound_def ready_times_def by simp
    ultimately show ?thesis by (auto simp: order_inv_def)
  next
    case False
    obtain v w where f: "b1_distq_ts_force_sync (clock (peers h p)) to = (v, w)" by (meson surj_pair)
    let ?h2 = "(upd_peer p (\<lambda>q. q\<lparr>clock := v\<rparr>) (upd_peer p (\<lambda>q. q\<lparr>local := to\<rparr>) h))
                \<lparr>warnings := warnings h + w\<rparr>"
    from run False f have r: "scan_rounds p (Some to) ?h2 = Some h'"
      by (simp add: b1_distq_peer_sync_def Let_def)
    have ce: "\<not> b1_distq_ts_committed (clock (peers h p))" using ci by (simp add: clock_inv_def)
    have vt: "\<not> b1_distq_ts_committed v"
      using force_sync_tentative [OF ce, of to] f False by simp
    have vg: "sint to \<le> sint v" using force_sync_ge [OF ce, of to] f by simp
    have vc: "sint (clock (peers h p)) \<le> sint v" using force_sync_mono [of "clock (peers h p)" to] f by simp
    have l2: "lists_ok ?h2 inc bsy" by (rule lists_ok_fields [OF lok]) simp_all
    have rt: "ready_times ?h2 q = ready_times h q" for q by (simp add: ready_times_def)
    have w: "waiting_ok ?h2 b n = waiting_ok h b n" for b n by (simp add: waiting_ok_def)
    have c2: "clock_inv ?h2" using ci vt by (simp add: clock_inv_def)
    have t2: "times_ok ?h2"
      using tok vg unfolding times_ok_def rt by auto
    have st: "scan_times ?h2 p (Some to) (sint (local (peers h p))) inc bsy [] (bsy p)"
      unfolding scan_times_def w
      using c2 t2 o False by (auto simp: order_ok_def)
    have lb2: "lower_bound ?h2 P x"
      using lb False unfolding lower_bound_def rt by auto
    have xb: "P = p \<longrightarrow> x \<le> sint (local (peers h p))" using lb by (auto simp: lower_bound_def)
    from scan_rounds_order [OF r l2 st lb2 xb] show ?thesis by (simp add: order_inv_def)
  qed
qed

lemma sorted_hd_le: "sorted xs \<Longrightarrow> x \<in> set xs \<Longrightarrow> hd xs \<le> (x::int)"
  by (cases xs) auto

lemma order_inv_front:
  assumes ok: "order_inv h" and f: "queue_ready_first (peers h p) = Some n"
  shows "queue_ready (peers h p) \<noteq> []" and "n = hd (queue_ready (peers h p))"
    and "\<And>t. t \<in> set (ready_times h p) \<Longrightarrow> sint (node_timestamp (nodes h n)) \<le> t"
    and "queue_ready_last (peers h p) = Some (last (queue_ready (peers h p)))"
    and "sint (node_timestamp (nodes h n)) \<in> set (ready_times h p)"
proof -
  from ok obtain inc bsy where o: "order_ok h inc bsy" by (auto simp: order_inv_def)
  then have c: "cache_ok h" and s: "sorted (ready_times h p)"
    by (simp_all add: order_ok_def lists_ok_def times_ok_def)
  from c f show ne: "queue_ready (peers h p) \<noteq> []" and hd: "n = hd (queue_ready (peers h p))"
    by (auto simp: cache_ok_def split: if_splits)
  from c ne show "queue_ready_last (peers h p) = Some (last (queue_ready (peers h p)))"
    by (auto simp: cache_ok_def)
  show "sint (node_timestamp (nodes h n)) \<in> set (ready_times h p)"
    using ne hd by (simp add: ready_times_def)
  have "hd (ready_times h p) = sint (node_timestamp (nodes h n))"
    using ne hd by (simp add: ready_times_def hd_map)
  with sorted_hd_le [OF s] show "sint (node_timestamp (nodes h n)) \<le> t" if "t \<in> set (ready_times h p)" for t
    using that by auto
qed

lemma peek_front_order:
  assumes run: "peek_front p first h = Some (r, h')"
    and ok: "order_inv h" and lb: "lower_bound h P x"
    and f: "queue_ready_first (peers h p) = Some first"
  shows "order_inv h' \<and> lower_bound h' P x
     \<and> (\<forall>n. r = Some n \<longrightarrow> lower_bound h' p (sint (node_timestamp (nodes h' n)))
            \<and> (P = p \<longrightarrow> x \<le> sint (node_timestamp (nodes h' n))))"
proof (cases "sint (node_timestamp (nodes h first)) \<ge> sint (local (peers h p))")
  case False
  with run have e: "r = Some first" "h' = h" by (simp_all add: peek_front_def)
  have "lower_bound h p (sint (node_timestamp (nodes h first)))"
    unfolding lower_bound_def using False order_inv_front(3) [OF ok f] by auto
  moreover have "P = p \<longrightarrow> x \<le> sint (node_timestamp (nodes h first))"
    using lb order_inv_front(5) [OF ok f] by (auto simp: lower_bound_def)
  ultimately show ?thesis using ok lb e by simp
next
  case True
  from ok obtain inc bsy where o: "order_ok h inc bsy" by (auto simp: order_inv_def)
  let ?rs = "queue_ready (peers h p)"
  let ?l = "last ?rs"
  note fr = order_inv_front [OF ok f]
  have ll: "queue_ready_last (peers h p) = Some ?l" by (rule fr(4))
  have lin: "?l \<in> set ?rs" using fr(1) by simp
  let ?v = "node_timestamp (nodes h ?l)"
  have lc: "b1_distq_ts_committed ?v" and lm: "sint ?v < 2 ^ 63 - 1"
    using o lin by (auto simp: order_ok_def times_ok_def)
  have vz: "?v \<noteq> 0" using lc by (auto simp: b1_distq_ts_committed_def)
  have su: "sint (?v + 1) = sint ?v + 1" by (rule sint_succ_below_max [OF lm])
  from run True ll obtain h1 where s: "b1_distq_peer_sync p (?v + 1) h = Some h1"
    and r: "r = queue_ready_first (peers h1 p)"
    and h': "h' = warn_on (queue_ready_first (peers h1 p) = None) h1"
    by (auto simp: peek_front_def split: option.splits)
  have tl: "sint (node_timestamp (nodes h first)) \<le> sint ?v"
    using fr(3) [of "sint ?v"] lin by (auto simp: ready_times_def)
  have guard: "\<not> (b1_distq_ts_committed (?v + 1) \<or> sint (?v + 1) \<le> sint (local (peers h p)))"
    using lc True tl su by (auto simp: committed_iff_odd)
  obtain v w where fs: "b1_distq_ts_force_sync (clock (peers h p)) (?v + 1) = (v, w)" by (meson surj_pair)
  let ?h2 = "(upd_peer p (\<lambda>q. q\<lparr>clock := v\<rparr>) (upd_peer p (\<lambda>q. q\<lparr>local := ?v + 1\<rparr>) h))
                \<lparr>warnings := warnings h + w\<rparr>"
  from s guard fs have sr: "scan_rounds p (Some (?v + 1)) ?h2 = Some h1"
    by (simp add: b1_distq_peer_sync_def Let_def)
  have "?l \<in> set (queue_ready (peers ?h2 p))" "node_timestamp (nodes ?h2 ?l) = ?v"
    using lin by simp_all
  from scan_rounds_keeps [OF sr this vz]
  have k: "?l \<in> set (queue_ready (peers h1 p))" "node_timestamp (nodes h1 ?l) = ?v"
    "local (peers h1 p) = ?v + 1" by simp_all
  from sync_order [OF s ok lb] have o1: "order_inv h1" and lb1: "lower_bound h1 P x" by simp_all
  have post: "lower_bound h1 p (sint (node_timestamp (nodes h1 n)))
        \<and> (P = p \<longrightarrow> x \<le> sint (node_timestamp (nodes h1 n)))"
    if "queue_ready_first (peers h1 p) = Some n" for n
  proof -
    note g = order_inv_front [OF o1 that]
    have x: "P = p \<longrightarrow> x \<le> sint (node_timestamp (nodes h1 n))"
      using lb1 g(5) by (auto simp: lower_bound_def)
    have "sint (node_timestamp (nodes h1 n)) \<le> sint ?v"
      using g(3) [of "sint ?v"] k(1,2) by (force simp: ready_times_def)
    then have "sint (node_timestamp (nodes h1 n)) \<le> sint (local (peers h1 p))"
      unfolding k(3) su by simp
    with g(3) x show ?thesis by (auto simp: lower_bound_def)
  qed
  have wc: "order_inv (warn_on c g) = order_inv g" "lower_bound (warn_on c g) = lower_bound g"
    "nodes (warn_on c g) = nodes g" for c g
  proof -
    show "lower_bound (warn_on c g) = lower_bound g"
      by (intro ext) (simp add: lower_bound_def ready_times_def)
    have "lists_ok (warn_on c g) i b = lists_ok g i b" for i b
      by (rule lists_ok_heap_cong) simp_all
    moreover have "clock_inv (warn_on c g) = clock_inv g" "times_ok (warn_on c g) = times_ok g"
      "waiting_ok (warn_on c g) = waiting_ok g"
      by (rule times_cong; simp)+
    ultimately show "order_inv (warn_on c g) = order_inv g"
      by (simp add: order_inv_def order_ok_def)
  qed simp
  show ?thesis unfolding h' wc r using o1 lb1 post by simp
qed

lemma peek_order:
  assumes run: "b1_distq_peer_peek p h = Some (r, h')"
    and ok: "order_inv h" and lb: "lower_bound h P x"
  shows "order_inv h' \<and> lower_bound h' P x
     \<and> (\<forall>n. r = Some n \<longrightarrow> lower_bound h' p (sint (node_timestamp (nodes h' n)))
            \<and> (P = p \<longrightarrow> x \<le> sint (node_timestamp (nodes h' n))))"
proof (cases "queue_ready_first (peers h p)")
  case (Some first)
  with run have "peek_front p first h = Some (r, h')" by (simp add: b1_distq_peer_peek_def)
  from peek_front_order [OF this ok lb Some] show ?thesis .
next
  case None
  with run obtain h1 where 1: "scan_rounds p None h = Some h1"
    by (auto simp: b1_distq_peer_peek_def b1_distq_peer_prefetch_def split: option.splits)
  from prefetch_order [OF 1 ok lb] have o1: "order_inv h1" and l1: "lower_bound h1 P x" by simp_all
  show ?thesis
  proof (cases "queue_ready_first (peers h1 p)")
    case None
    with run \<open>queue_ready_first (peers h p) = None\<close> 1 o1 l1 show ?thesis
      by (auto simp: b1_distq_peer_peek_def b1_distq_peer_prefetch_def)
  next
    case (Some first)
    with run \<open>queue_ready_first (peers h p) = None\<close> 1
    have "peek_front p first h1 = Some (r, h')"
      by (auto simp: b1_distq_peer_peek_def b1_distq_peer_prefetch_def)
    from peek_front_order [OF this o1 l1 Some] show ?thesis .
  qed
qed

section \<open>The other operations keep the order\<close>

lemma lower_bound_cong:
  assumes "lower_bound h P x"
    and "sint (local (peers h P)) \<le> sint (local (peers h' P))"
    and "set (ready_times h' P) \<subseteq> set (ready_times h P)"
  shows "lower_bound h' P x"
  using assms unfolding lower_bound_def by force

lemma queue_tx_timestamp:
  "tx_timestamp (txs (b1_distq_node_queue n tx dest h) u) =
     (if u = tx \<and> node_tx (nodes h n) = None \<and> next_queue (nodes h n) = NNull
          \<and> queue_incoming (peers h dest) \<noteq> NNull
      then fst (b1_distq_ts_force_sync (tx_timestamp (txs h tx)) (clock (peers h dest)))
      else tx_timestamp (txs h u))"
  by (auto simp: b1_distq_node_queue_def Let_def refcount_dec_and_test_def split: prod.splits)

lemma queue_closed_fields:
  assumes "node_tx (nodes h n) = None" and "next_queue (nodes h n) = NNull"
    and "queue_incoming (peers h dest) = NNull"
  shows "peers (b1_distq_node_queue n tx dest h) = peers h"
    and "node_timestamp (nodes (b1_distq_node_queue n tx dest h) a) = node_timestamp (nodes h a)"
    and "a \<noteq> n \<Longrightarrow> node_tx (nodes (b1_distq_node_queue n tx dest h) a) = node_tx (nodes h a)"
  unfolding queue_closed_heap [OF assms] by simp_all

lemma queue_order:
  assumes ok: "order_ok h inc bsy" and c: "contract (Queue n tx dest) h"
    and lb: "lower_bound h P x"
  shows "order_inv (b1_distq_node_queue n tx dest h)
         \<and> lower_bound (b1_distq_node_queue n tx dest h) P x"
proof -
  let ?h = "b1_distq_node_queue n tx dest h"
  let ?inc = "if queue_incoming (peers h dest) = NNull then inc else inc(dest := n # inc dest)"
  from c have c1: "node_tx (nodes h n) = None" "next_queue (nodes h n) = NNull"
    "\<not> rb_ready (nodes h n)" and z: "node_timestamp (nodes h n) = 0"
    and tt: "\<not> b1_distq_ts_committed (tx_timestamp (txs h tx))" by simp_all
  have lok: "lists_ok h inc bsy" and ci: "clock_inv h" and tok: "times_ok h"
    using ok by (simp_all add: order_ok_def)
  have l': "lists_ok ?h ?inc bsy" by (rule queue_lists_ok [OF lok c1])
  have ci': "clock_inv ?h" using clock_inv_step [of "Queue n tx dest" h ?h] c ci by simp
  have new: "n \<notin> set (members h inc bsy q)" for q
    using members_linked [OF lok, of n q] c1 by auto
  have ce: "\<not> b1_distq_ts_committed (clock (peers h dest))" using ci by (simp add: clock_inv_def)
  let ?v = "fst (b1_distq_ts_force_sync (tx_timestamp (txs h tx)) (clock (peers h dest)))"
  have vt: "\<not> b1_distq_ts_committed ?v" by (rule force_sync_tentative [OF tt ce])
  have vm: "sint (tx_timestamp (txs h tx)) \<le> sint ?v" by (rule force_sync_mono)
  have vc: "sint (clock (peers h dest)) \<le> sint ?v" by (rule force_sync_ge [OF tt])
  have mono: "sint (tx_timestamp (txs h u)) \<le> sint (tx_timestamp (txs ?h u))" for u
    using vm by (simp add: queue_tx_timestamp)
  have com: "tx_timestamp (txs ?h u) = tx_timestamp (txs h u)" if "b1_distq_ts_committed (tx_timestamp (txs ?h u))" for u
    using that vt by (auto simp: queue_tx_timestamp split: if_splits)
  have fpa: "queue_ready (peers ?h q) = queue_ready (peers h q)
      \<and> clock (peers ?h q) = clock (peers h q) \<and> local (peers ?h q) = local (peers h q)" for q
  proof (cases "queue_incoming (peers h dest) = NNull")
    case True
    show ?thesis by (simp add: queue_closed_fields(1) [OF c1(1,2) True])
  next
    case False
    show ?thesis
      by (intro conjI) (rule queue_open_fields(8,11,12) [OF c1(1,2) False])+
  qed
  have fp: "queue_ready (peers ?h q) = queue_ready (peers h q)"
      "clock (peers ?h q) = clock (peers h q)" "local (peers ?h q) = local (peers h q)" for q
    using fpa [of q] by blast+
  have fts: "node_timestamp (nodes ?h a) = node_timestamp (nodes h a)" for a
  proof (cases "queue_incoming (peers h dest) = NNull")
    case True
    show ?thesis by (rule queue_closed_fields(2) [OF c1(1,2) True])
  next
    case False
    show ?thesis by (rule queue_open_fields(5) [OF c1(1,2) False])
  qed
  have ftx: "node_tx (nodes ?h a) = node_tx (nodes h a)" if "a \<noteq> n" for a
  proof (cases "queue_incoming (peers h dest) = NNull")
    case True
    show ?thesis by (rule queue_closed_fields(3) [OF c1(1,2) True that])
  next
    case False
    show ?thesis by (rule queue_open_fields(2) [OF c1(1,2) False that])
  qed
  have rt: "ready_times ?h q = ready_times h q" for q
    unfolding ready_times_def fp fts ..
  have t': "times_ok ?h"
    unfolding times_ok_def rt fp fts
  proof (intro conjI allI impI ballI)
    fix u assume cu: "b1_distq_ts_committed (tx_timestamp (txs ?h u))"
    have "b1_distq_ts_committed (tx_timestamp (txs h u))" using com [OF cu] cu by simp
    then have "sint (tx_timestamp (txs h u)) < 2 ^ 63 - 1" using tok unfolding times_ok_def by blast
    then show "sint (tx_timestamp (txs ?h u)) < 2 ^ 63 - 1" using com [OF cu] by simp
  qed (use tok in \<open>auto simp: times_ok_def\<close>)
  have w: "waiting_ok ?h (sint (local (peers ?h q))) m" if m: "m \<in> set (?inc q) \<union> set (bsy q)" for q m
  proof (cases "m \<in> set (inc q) \<union> set (bsy q)")
    case True
    then have "m \<in> set (members h inc bsy q)" by (auto simp: members_def)
    with new [of q] have mn: "m \<noteq> n" by auto
    have "waiting_ok h (sint (local (peers h q))) m" using ok True by (simp add: order_ok_def)
    then show ?thesis unfolding fp
    proof (rule waiting_ok_mono)
      show "node_timestamp (nodes ?h m) = node_timestamp (nodes h m)" by (rule fts)
      show "node_tx (nodes ?h m) = node_tx (nodes h m)" by (rule ftx [OF mn])
      show "sint (tx_timestamp (txs h u)) \<le> sint (tx_timestamp (txs ?h u))" for u by (rule mono)
    qed simp
  next
    case False
    with m have op: "queue_incoming (peers h dest) \<noteq> NNull" and e: "m = n" "q = dest"
      by (auto split: if_splits)
    have "node_tx (nodes ?h n) = Some tx" by (rule queue_open_fields(3) [OF c1(1,2) op])
    moreover have "tx_timestamp (txs ?h tx) = ?v" using c1 op by (simp add: queue_tx_timestamp)
    moreover have "sint (local (peers h dest)) \<le> sint (clock (peers h dest))"
      using tok by (simp add: times_ok_def)
    ultimately show ?thesis unfolding e using z vc by (simp add: waiting_ok_def fts fp)
  qed
  have "order_ok ?h ?inc bsy" unfolding order_ok_def using l' ci' t' w by blast
  moreover have "lower_bound ?h P x" by (rule lower_bound_cong [OF lb]) (simp_all add: fp rt)
  ultimately show ?thesis by (auto simp: order_inv_def)
qed

lemma commit_order:
  assumes ok: "order_ok h inc bsy" and c: "contract (Commit n dest) h"
    and lb: "lower_bound h P x"
  shows "order_inv (b1_distq_node_commit n dest h) \<and> lower_bound (b1_distq_node_commit n dest h) P x"
proof -
  let ?h = "b1_distq_node_commit n dest h"
  from c obtain tx where tx: "node_tx (nodes h n) = Some tx" by (auto split: option.splits)
  let ?v = "fst (b1_distq_ts_force_sync (clock (peers h dest)) (tx_timestamp (txs h tx) + 1))"
  have h': "?h = (upd_peer dest (\<lambda>q. q\<lparr>clock := ?v\<rparr>)
                   (upd_peer dest (\<lambda>q. q\<lparr>n_committed := n_committed q + 1\<rparr>) h))
                 \<lparr>warnings := warnings h + snd (b1_distq_ts_force_sync (clock (peers h dest)) (tx_timestamp (txs h tx) + 1))\<rparr>"
    using tx by (simp add: b1_distq_node_commit_def Let_def split: prod.splits)
  have lok: "lists_ok h inc bsy" and ci: "clock_inv h" and tok: "times_ok h"
    using ok by (simp_all add: order_ok_def)
  have l': "lists_ok ?h inc bsy" unfolding h' by (rule lists_ok_fields [OF lok]) simp_all
  have ci': "clock_inv ?h" using clock_inv_step [of "Commit n dest" h ?h] c ci by simp
  have vm: "sint (clock (peers h dest)) \<le> sint ?v" by (rule force_sync_mono)
  have rt: "ready_times ?h q = ready_times h q" for q unfolding h' by (simp add: ready_times_def)
  have lc: "sint (local (peers h q)) \<le> sint (clock (peers h q))" for q
    using tok by (simp add: times_ok_def)
  have lc': "sint (local (peers ?h q)) \<le> sint (clock (peers ?h q))" for q
    using lc [of q] vm unfolding h' by auto
  have t': "times_ok ?h"
    using tok lc' unfolding times_ok_def rt unfolding h' by simp
  have w: "waiting_ok ?h b m = waiting_ok h b m" for b m unfolding h' by (simp add: waiting_ok_def)
  have lo: "local (peers ?h q) = local (peers h q)" for q unfolding h' by simp
  have "order_ok ?h inc bsy" unfolding order_ok_def w lo using l' ci' t' ok by (simp add: order_ok_def)
  moreover have "lower_bound ?h P x" by (rule lower_bound_cong [OF lb]) (simp_all add: lo rt)
  ultimately show ?thesis by (auto simp: order_inv_def)
qed

lemma tx_commit_order:
  assumes ok: "order_ok h inc bsy" and c: "contract (TxCommit tx s) h" and r: "in_range (TxCommit tx s) h"
    and lb: "lower_bound h P x"
  shows "order_inv (b1_distq_tx_commit tx s h) \<and> lower_bound (b1_distq_tx_commit tx s h) P x"
proof -
  let ?h = "b1_distq_tx_commit tx s h"
  let ?m = "fst (b1_distq_ts_force_sync (tx_timestamp (txs h tx)) (clock (peers h s)))"
  have f: "nodes ?h = nodes h" "peers ?h = peers h"
    by (simp_all add: b1_distq_tx_commit_def Let_def split: prod.splits)
  have lok: "lists_ok h inc bsy" and ci: "clock_inv h" and tok: "times_ok h"
    using ok by (simp_all add: order_ok_def)
  have tt: "\<not> b1_distq_ts_committed (tx_timestamp (txs h tx))" using c by simp
  have ce: "\<not> b1_distq_ts_committed (clock (peers h s))" using ci by (simp add: clock_inv_def)
  have mt: "\<not> b1_distq_ts_committed ?m" by (rule force_sync_tentative [OF tt ce])
  have ms: "sint (?m + 1) = sint ?m + 1" by (rule sint_tentative_succ [OF mt])
  have mm: "sint (tx_timestamp (txs h tx)) \<le> sint ?m" by (rule force_sync_mono)
  have mb: "sint ?m < 2 ^ 63 - 2"
    using r by (auto simp: b1_distq_ts_force_sync_def Let_def)
  have l': "lists_ok ?h inc bsy" using lok lists_ok_heap_cong [OF f, of inc bsy] by simp
  have ci': "clock_inv ?h" using clock_inv_step [of "TxCommit tx s" h ?h] c ci by simp
  have rt: "ready_times ?h q = ready_times h q" for q by (simp add: ready_times_def f)
  have mono: "sint (tx_timestamp (txs h u)) \<le> sint (tx_timestamp (txs ?h u))" for u
    using mm ms by (simp add: tx_commit_ts)
  have t': "times_ok ?h"
    unfolding times_ok_def rt f
  proof (intro conjI allI impI ballI)
    fix u assume cu: "b1_distq_ts_committed (tx_timestamp (txs ?h u))"
    show "sint (tx_timestamp (txs ?h u)) < 2 ^ 63 - 1"
    proof (cases "u = tx")
      case True
      then show ?thesis using ms mb by (simp add: tx_commit_ts)
    next
      case False
      with cu tok show ?thesis by (auto simp: tx_commit_ts times_ok_def)
    qed
  qed (use tok in \<open>auto simp: times_ok_def\<close>)
  have w: "waiting_ok ?h (sint (local (peers ?h q))) m" if "m \<in> set (inc q) \<union> set (bsy q)" for q m
  proof -
    have "waiting_ok h (sint (local (peers h q))) m" using ok that by (simp add: order_ok_def)
    then show ?thesis by (rule waiting_ok_mono) (use mono in \<open>simp_all add: f\<close>)
  qed
  have "order_ok ?h inc bsy" unfolding order_ok_def using l' ci' t' w by blast
  moreover have "lower_bound ?h P x" by (rule lower_bound_cong [OF lb]) (simp_all add: f rt)
  ultimately show ?thesis by (auto simp: order_inv_def)
qed

section \<open>Pop, finalize and the claims keep the order\<close>

lemma order_ok_frame:
  assumes ok: "order_ok h inc bsy"
    and l': "lists_ok h' inc' bsy'"
    and ci': "clock_inv h'"
    and sub: "\<And>q. set (inc' q) \<union> set (bsy' q) \<subseteq> set (inc q) \<union> set (bsy q)"
    and lo: "\<And>q. local (peers h' q) = local (peers h q)"
    and cl: "\<And>q. clock (peers h' q) = clock (peers h q)"
    and tx: "txs h' = txs h"
    and ts: "\<And>a. node_timestamp (nodes h' a) = node_timestamp (nodes h a)"
    and ntx: "\<And>q a. a \<in> set (inc q) \<union> set (bsy q) \<Longrightarrow> node_tx (nodes h' a) = node_tx (nodes h a)"
    and rd: "\<And>q. queue_ready (peers h' q) = queue_ready (peers h q)
               \<or> queue_ready (peers h' q) = []
               \<or> (\<exists>n. queue_ready (peers h' q) = remove1 n (queue_ready (peers h q)))"
    and lb: "lower_bound h P x"
  shows "order_inv h' \<and> lower_bound h' P x"
proof -
  have tok: "times_ok h" using ok by (simp add: order_ok_def)
  have rs: "set (queue_ready (peers h' q)) \<subseteq> set (queue_ready (peers h q))" for q
    using rd [of q] set_remove1_subset by fastforce
  have rts: "set (ready_times h' q) \<subseteq> set (ready_times h q)" for q
    using rs [of q] unfolding ready_times_def ts by auto
  have so: "sorted (ready_times h' q)" for q
  proof -
    have s: "sorted (map (\<lambda>n. sint (node_timestamp (nodes h n))) (queue_ready (peers h q)))"
      using tok by (simp add: times_ok_def ready_times_def)
    from rd [of q] consider "queue_ready (peers h' q) = queue_ready (peers h q)"
      | "queue_ready (peers h' q) = []"
      | n where "queue_ready (peers h' q) = remove1 n (queue_ready (peers h q))" by blast
    then show ?thesis
    proof cases
      case 1
      then show ?thesis using s by (simp add: ready_times_def ts)
    next
      case 2
      then show ?thesis by (simp add: ready_times_def)
    next
      case 3
      show ?thesis unfolding ready_times_def ts 3 by (rule sorted_map_remove1 [OF s])
    qed
  qed
  have t': "times_ok h'"
    unfolding times_ok_def lo cl tx ts
  proof (intro conjI allI ballI)
    fix q n assume "n \<in> set (queue_ready (peers h' q))"
    with rs [of q] have "n \<in> set (queue_ready (peers h q))" by blast
    with tok show "b1_distq_ts_committed (node_timestamp (nodes h n))"
      and "sint (node_timestamp (nodes h n)) < 2 ^ 63 - 1" by (auto simp: times_ok_def)
  qed (use tok so in \<open>auto simp: times_ok_def\<close>)
  have w: "waiting_ok h' (sint (local (peers h' q))) m" if m: "m \<in> set (inc' q) \<union> set (bsy' q)" for q m
  proof -
    from m sub [of q] have m': "m \<in> set (inc q) \<union> set (bsy q)" by blast
    then have "waiting_ok h (sint (local (peers h q))) m" using ok by (simp add: order_ok_def)
    then show ?thesis unfolding lo
      by (rule waiting_ok_mono) (simp_all add: ts tx ntx [OF m'])
  qed
  have "order_ok h' inc' bsy'" unfolding order_ok_def using l' ci' t' w by blast
  moreover have "lower_bound h' P x" by (rule lower_bound_cong [OF lb]) (simp_all add: lo rts)
  ultimately show ?thesis by (auto simp: order_inv_def)
qed

lemma pop_ready_fields:
  assumes "b1_distq_peer_pop_ready p h = Some (r, h')"
  shows "txs h' = txs h"
    and "node_timestamp (nodes h' a) = node_timestamp (nodes h a)"
    and "node_tx (nodes h' a) = node_tx (nodes h a)"
    and "local (peers h' q) = local (peers h q)"
    and "clock (peers h' q) = clock (peers h q)"
    and "queue_ready (peers h' q) = queue_ready (peers h q) \<or> queue_ready (peers h' q) = []
         \<or> (\<exists>n. queue_ready (peers h' q) = remove1 n (queue_ready (peers h q)))"
  using assms
  by (auto simp: b1_distq_peer_pop_ready_def split: option.splits if_splits)

lemma pop_fields:
  assumes "b1_distq_peer_pop p n h = Some h'"
  shows "txs h' = txs h"
    and "node_timestamp (nodes h' a) = node_timestamp (nodes h a)"
    and "node_tx (nodes h' a) = node_tx (nodes h a)"
    and "local (peers h' q) = local (peers h q)"
    and "clock (peers h' q) = clock (peers h q)"
    and "queue_ready (peers h' q) = queue_ready (peers h q) \<or> queue_ready (peers h' q) = []
         \<or> (\<exists>n. queue_ready (peers h' q) = remove1 n (queue_ready (peers h q)))"
proof -
  from assms obtain r h1 where 1: "b1_distq_peer_pop_ready p h = Some (r, h1)"
    and h': "h' = upd_peer p (\<lambda>q. q\<lparr>n_committed := n_committed q - 1\<rparr>) (warn_on (Some n \<noteq> r) h1)"
    by (auto simp: b1_distq_peer_pop_def split: option.splits)
  note f = pop_ready_fields [OF 1]
  show "txs h' = txs h" unfolding h' using f(1) by simp
  show "node_timestamp (nodes h' a) = node_timestamp (nodes h a)" unfolding h' using f(2) by simp
  show "node_tx (nodes h' a) = node_tx (nodes h a)" unfolding h' using f(3) by simp
  show "local (peers h' q) = local (peers h q)" unfolding h' using f(4) [of q] by auto
  show "clock (peers h' q) = clock (peers h q)" unfolding h' using f(5) [of q] by auto
  show "queue_ready (peers h' q) = queue_ready (peers h q) \<or> queue_ready (peers h' q) = []
         \<or> (\<exists>n. queue_ready (peers h' q) = remove1 n (queue_ready (peers h q)))"
    unfolding h' using f(6) [of q] by auto
qed

lemma pop_order:
  assumes pop: "b1_distq_peer_pop p n h = Some h'"
    and ok: "order_ok h inc bsy" and c: "contract (Pop p n) h" and lb: "lower_bound h P x"
  shows "order_inv h' \<and> lower_bound h' P x"
proof (rule order_ok_frame [OF ok _ _ _ _ _ _ _ _ _ lb])
  show "lists_ok h' inc bsy" using pop_lists_ok [OF pop] ok by (simp add: order_ok_def)
  show "clock_inv h'" using clock_inv_step [of "Pop p n" h h'] pop c ok by (simp add: order_ok_def)
qed (simp_all add: pop_fields [OF pop])

lemma finalize_ready_frame:
  assumes "b1_distq_peer_finalize p h = Some (l, h')"
  shows "local (peers h' q) = local (peers h q)"
    and "queue_ready (peers h' q) = queue_ready (peers h q) \<or> queue_ready (peers h' q) = []"
    and "node_tx (nodes h' a) = node_tx (nodes h a)"
proof -
  have "local (peers h' q) = local (peers h q)
    \<and> (queue_ready (peers h' q) = queue_ready (peers h q) \<or> queue_ready (peers h' q) = [])
    \<and> node_tx (nodes h' a) = node_tx (nodes h a)"
  proof (cases "queue_incoming (peers h p) = NNull")
    case True
    with assms show ?thesis by (auto simp: b1_distq_peer_finalize_def Let_def split: if_splits)
  next
    case False
    let ?h1 = "upd_peer p (\<lambda>q. q\<lparr>queue_incoming := NNull\<rparr>) h"
    from False assms obtain sl where sl: "find_tail (SlotBusy p) ?h1 = Some sl"
      by (auto simp: b1_distq_peer_finalize_def Let_def split: option.splits)
    let ?h3 = "upd_peer p (\<lambda>q. q\<lparr>queue_busy := NNull\<rparr>) (write_slot sl (queue_incoming (peers h p)) ?h1)"
    let ?l2 = "queue_busy (peers (write_slot sl (queue_incoming (peers h p)) ?h1) p)"
    let ?h4 = "fst (fold detach_ready (queue_ready (peers ?h3 p)) (?h3, ?l2))"
    from assms False sl have h': "h' = upd_peer p (\<lambda>q. q\<lparr>queue_ready := [], queue_ready_first := None,
                                                      queue_ready_last := None\<rparr>) ?h4"
      by (simp add: b1_distq_peer_finalize_def Let_def split: prod.splits)
    show ?thesis unfolding h'
      by (cases sl) (auto simp: write_slot_def)
  qed
  then show "local (peers h' q) = local (peers h q)"
    and "queue_ready (peers h' q) = queue_ready (peers h q) \<or> queue_ready (peers h' q) = []"
    and "node_tx (nodes h' a) = node_tx (nodes h a)" by blast+
qed

lemma finalize_order:
  assumes fin: "b1_distq_peer_finalize p h = Some (l, h')"
    and ok: "order_ok h inc bsy" and lb: "lower_bound h P x"
  shows "order_inv h' \<and> lower_bound h' P x"
proof (rule order_ok_frame [OF ok _ _ _ _ _ _ _ _ _ lb])
  show "lists_ok h' (inc(p := [])) (bsy(p := []))"
    using finalize_lists_ok [OF fin] ok by (simp add: order_ok_def)
  show "clock_inv h'" using clock_inv_finalize [OF fin] ok by (simp add: order_ok_def)
  show "txs h' = txs h" using finalize_frame [OF fin] by simp
  show "queue_ready (peers h' q) = queue_ready (peers h q) \<or> queue_ready (peers h' q) = []
         \<or> (\<exists>n. queue_ready (peers h' q) = remove1 n (queue_ready (peers h q)))" for q
    using finalize_ready_frame(2) [OF fin, of q] by blast
qed (use finalize_clock_frame [OF fin] in \<open>auto simp: finalize_ready_frame [OF fin]\<close>)

lemma node_finalize_order:
  assumes ok: "order_ok h inc bsy" and c: "contract (NodeFinalize n) h" and lb: "lower_bound h P x"
  shows "order_inv (snd (b1_distq_node_finalize n h)) \<and> lower_bound (snd (b1_distq_node_finalize n h)) P x"
proof -
  let ?h = "snd (b1_distq_node_finalize n h)"
  have lok: "lists_ok h inc bsy" using ok by (simp add: order_ok_def)
  from c have c1: "next_queue (nodes h n) = NNull" "\<not> rb_ready (nodes h n)" by simp_all
  have new: "n \<notin> set (members h inc bsy q)" for q
    using members_linked [OF lok, of n q] c1 by auto
  show ?thesis
  proof (rule order_ok_frame [OF ok _ _ _ _ _ _ _ _ _ lb])
    show "lists_ok ?h inc bsy"
    proof (rule lists_ok_fields [OF lok], goal_cases)
      case (6 q a)
      then have "a \<noteq> n" using new by auto
      then show ?case by (simp add: b1_distq_node_finalize_def)
    qed (simp_all add: b1_distq_node_finalize_def)
    show "clock_inv ?h" using clock_inv_step [of "NodeFinalize n" h ?h] c ok by (simp add: order_ok_def)
    show "node_tx (nodes ?h a) = node_tx (nodes h a)" if "a \<in> set (inc q) \<union> set (bsy q)" for q a
    proof -
      from that have "a \<in> set (members h inc bsy q)" by (auto simp: members_def)
      with new [of q] have "a \<noteq> n" by auto
      then show ?thesis by (simp add: b1_distq_node_finalize_def)
    qed
  qed (simp_all add: b1_distq_node_finalize_def)
qed

lemma node_claim_order:
  assumes ok: "order_ok h inc bsy" and c: "contract (NodeClaim n) h" and lb: "lower_bound h P x"
  shows "order_inv (b1_distq_node_claim n h) \<and> lower_bound (b1_distq_node_claim n h) P x"
proof (rule order_ok_frame [OF ok _ _ _ _ _ _ _ _ _ lb])
  have lok: "lists_ok h inc bsy" using ok by (simp add: order_ok_def)
  show "lists_ok (b1_distq_node_claim n h) inc bsy"
    by (rule lists_ok_fields [OF lok]) (auto simp: b1_distq_node_claim_def)
  show "clock_inv (b1_distq_node_claim n h)"
    using clock_inv_step [of "NodeClaim n" h "b1_distq_node_claim n h"] c ok by (simp add: order_ok_def)
qed (simp_all add: b1_distq_node_claim_def)

lemma tx_claim_order:
  assumes ok: "order_ok h inc bsy" and c: "contract (TxClaim t) h" and lb: "lower_bound h P x"
  shows "order_inv (b1_distq_tx_claim t h) \<and> lower_bound (b1_distq_tx_claim t h) P x"
proof -
  let ?h = "b1_distq_tx_claim t h"
  have f: "nodes ?h = nodes h" "peers ?h = peers h" by (simp_all add: b1_distq_tx_claim_def)
  have ts: "tx_timestamp (txs ?h u) = tx_timestamp (txs h u)" for u
    by (simp add: b1_distq_tx_claim_def)
  have lok: "lists_ok h inc bsy" and ci: "clock_inv h" and tok: "times_ok h"
    using ok by (simp_all add: order_ok_def)
  have l': "lists_ok ?h inc bsy" using lok lists_ok_heap_cong [OF f, of inc bsy] by simp
  have ci': "clock_inv ?h" using clock_inv_step [of "TxClaim t" h ?h] c ci by simp
  have rt: "ready_times ?h q = ready_times h q" for q by (simp add: ready_times_def f)
  have t': "times_ok ?h" using tok unfolding times_ok_def rt f ts .
  have w: "waiting_ok ?h b m = waiting_ok h b m" for b m by (simp add: waiting_ok_def f ts)
  have "order_ok ?h inc bsy" unfolding order_ok_def w f using l' ci' t' ok by (simp add: order_ok_def)
  moreover have "lower_bound ?h P x" by (rule lower_bound_cong [OF lb]) (simp_all add: f rt)
  ultimately show ?thesis by (auto simp: order_inv_def)
qed

section \<open>The timestamps returned by peek are non-decreasing\<close>

lemma step_order:
  assumes st: "step x h = Some h'" and c: "contract x h" and r: "in_range x h"
    and inv: "order_inv h" and lb: "lower_bound h P y"
  shows "order_inv h' \<and> lower_bound h' P y"
proof -
  from inv obtain inc bsy where ok: "order_ok h inc bsy" by (auto simp: order_inv_def)
  show ?thesis
  proof (cases x)
    case (Queue n tx dest)
    with queue_order [OF ok _ lb, of n tx dest] c st show ?thesis by simp
  next
    case (Commit n dest)
    with commit_order [OF ok _ lb, of n dest] c st show ?thesis by simp
  next
    case (TxCommit tx s)
    with tx_commit_order [OF ok _ _ lb, of tx s] c r st show ?thesis by simp
  next
    case (Peek p)
    with st obtain res where "b1_distq_peer_peek p h = Some (res, h')" by auto
    from peek_order [OF this inv lb] show ?thesis by simp
  next
    case (Pop p n)
    with st c pop_order [OF _ ok _ lb, of p n h'] show ?thesis by simp
  next
    case (Finalize p)
    with st obtain l where "b1_distq_peer_finalize p h = Some (l, h')" by auto
    from finalize_order [OF this ok lb] show ?thesis .
  next
    case (NodeFinalize n)
    with node_finalize_order [OF ok _ lb, of n] c st show ?thesis by simp
  next
    case (NodeClaim n)
    with node_claim_order [OF ok _ lb, of n] c st show ?thesis by simp
  next
    case (TxClaim t)
    with tx_claim_order [OF ok _ lb, of t] c st show ?thesis by simp
  qed
qed

lemma peeked_not_peek:
  "(\<And>q. x \<noteq> Peek q) \<Longrightarrow> peeked p (x # xs) h = (case step x h of None \<Rightarrow> [] | Some h1 \<Rightarrow> peeked p xs h1)"
  by (cases x) auto

lemma peeked_sorted:
  assumes "order_inv h" and "lower_bound h P y"
    and "run_ok xs h = Some h'" and "run_in_range xs h"
  shows "sorted (peeked P xs h) \<and> (\<forall>t \<in> set (peeked P xs h). y \<le> t)"
  using assms
proof (induction xs arbitrary: h y)
  case Nil
  then show ?case by simp
next
  case (Cons x xs)
  from Cons.prems(3) obtain h1 where c: "contract x h" and st: "step x h = Some h1"
    and rest: "run_ok xs h1 = Some h'" by (auto split: if_splits option.splits)
  from Cons.prems(4) st have r: "in_range x h" and rr: "run_in_range xs h1" by simp_all
  from step_order [OF st c r Cons.prems(1,2)] have o1: "order_inv h1" and l1: "lower_bound h1 P y"
    by simp_all
  show ?case
  proof (cases "\<exists>n. x = Peek P \<and> b1_distq_peer_peek P h = Some (Some n, h1)")
    case True
    then obtain n where x: "x = Peek P" and pk: "b1_distq_peer_peek P h = Some (Some n, h1)" by blast
    let ?t = "sint (node_timestamp (nodes h1 n))"
    from peek_order [OF pk Cons.prems(1,2)] have lt: "lower_bound h1 P ?t" and yt: "y \<le> ?t" by simp_all
    from Cons.IH [OF o1 lt rest rr] have s: "sorted (peeked P xs h1)"
      and b: "\<forall>t \<in> set (peeked P xs h1). ?t \<le> t" by simp_all
    have e: "peeked P (x # xs) h = ?t # peeked P xs h1" unfolding x by (simp add: pk)
    show ?thesis unfolding e using s b yt by auto
  next
    case False
    have e: "peeked P (x # xs) h = peeked P xs h1"
    proof (cases "\<exists>q. x = Peek q")
      case True
      then obtain q where x: "x = Peek q" by blast
      with st obtain res where pk: "b1_distq_peer_peek q h = Some (res, h1)" by auto
      with False x show ?thesis by (cases res) auto
    next
      case False
      then show ?thesis using st by (simp add: peeked_not_peek)
    qed
    from Cons.IH [OF o1 l1 rest rr] show ?thesis unfolding e .
  qed
qed

lemma order_inv_fresh: "order_inv fresh_heap"
proof -
  have "lists_ok fresh_heap (\<lambda>_. []) (\<lambda>_. [])" by (rule lists_ok_fresh)
  moreover have "clock_inv fresh_heap" by (rule clock_inv_fresh)
  moreover have "times_ok fresh_heap"
    by (simp add: times_ok_def ready_times_def fresh_heap_def b1_distq_ts_committed_def)
  ultimately have "order_ok fresh_heap (\<lambda>_. []) (\<lambda>_. [])" by (simp add: order_ok_def)
  then show ?thesis unfolding order_inv_def by blast
qed

lemma lower_bound_fresh: "lower_bound fresh_heap P 0"
  by (simp add: lower_bound_def ready_times_def fresh_heap_def)

text \<open>
  C2. Along every sequence of engine operations from the freshly initialised store in
  which every operation respects its contract and returns, and no transaction is
  committed at the last tick of the 63-bit clock, the timestamps of the nodes that the
  successive calls \<open>peek(P)\<close> return are non-decreasing, whatever queue, commit, pop
  and finalize operations, on this and on other peers, come between them.
\<close>

theorem peek_timestamps_monotone:
  assumes "run_ok xs fresh_heap = Some h" and "run_in_range xs fresh_heap"
  shows "sorted (peeked P xs fresh_heap)"
  using peeked_sorted [OF order_inv_fresh lower_bound_fresh assms] by simp

lemma two_peeks_run:
  "run_ok [TxClaim 1, TxClaim 2, NodeClaim 1, NodeClaim 2, Queue 1 1 0, Queue 2 2 0,
           TxCommit 1 0, Commit 1 0, Peek 0, TxCommit 2 0, Commit 2 0, Pop 0 1, Peek 0]
     fresh_heap \<noteq> None"
  by (simp add: fresh_heap_def eval_defs)

lemma two_peeks_range:
  "run_in_range [TxClaim 1, TxClaim 2, NodeClaim 1, NodeClaim 2, Queue 1 1 0, Queue 2 2 0,
           TxCommit 1 0, Commit 1 0, Peek 0, TxCommit 2 0, Commit 2 0, Pop 0 1, Peek 0]
     fresh_heap"
  by (simp add: fresh_heap_def eval_defs)

lemma two_peeks_peeked:
  "peeked 0 [TxClaim 1, TxClaim 2, NodeClaim 1, NodeClaim 2, Queue 1 1 0, Queue 2 2 0,
           TxCommit 1 0, Commit 1 0, Peek 0, TxCommit 2 0, Commit 2 0, Pop 0 1, Peek 0]
     fresh_heap = [1, 3]"
  by (simp add: fresh_heap_def eval_defs)

theorem peek_timestamps_monotone_witness:
  "run_ok [TxClaim 1, TxClaim 2, NodeClaim 1, NodeClaim 2, Queue 1 1 0, Queue 2 2 0,
           TxCommit 1 0, Commit 1 0, Peek 0, TxCommit 2 0, Commit 2 0, Pop 0 1, Peek 0]
     fresh_heap \<noteq> None
   \<and> run_in_range [TxClaim 1, TxClaim 2, NodeClaim 1, NodeClaim 2, Queue 1 1 0, Queue 2 2 0,
           TxCommit 1 0, Commit 1 0, Peek 0, TxCommit 2 0, Commit 2 0, Pop 0 1, Peek 0]
     fresh_heap
   \<and> peeked 0 [TxClaim 1, TxClaim 2, NodeClaim 1, NodeClaim 2, Queue 1 1 0, Queue 2 2 0,
           TxCommit 1 0, Commit 1 0, Peek 0, TxCommit 2 0, Commit 2 0, Pop 0 1, Peek 0]
     fresh_heap = [1, 3]
   \<and> sorted (peeked 0 [TxClaim 1, TxClaim 2, NodeClaim 1, NodeClaim 2, Queue 1 1 0,
           Queue 2 2 0, TxCommit 1 0, Commit 1 0, Peek 0, TxCommit 2 0, Commit 2 0, Pop 0 1,
           Peek 0] fresh_heap)"
proof -
  from two_peeks_run obtain g where
    r: "run_ok [TxClaim 1, TxClaim 2, NodeClaim 1, NodeClaim 2, Queue 1 1 0, Queue 2 2 0,
           TxCommit 1 0, Commit 1 0, Peek 0, TxCommit 2 0, Commit 2 0, Pop 0 1, Peek 0]
         fresh_heap = Some g" by blast
  from peek_timestamps_monotone [OF r two_peeks_range, of 0] two_peeks_run two_peeks_range
    two_peeks_peeked
  show ?thesis by blast
qed

end
